theory Spec2Isabelle
  imports Complex_Main "HOL-Library.Word"
begin

section \<open>The DNA sequence compressor (dna\_compressor.py)\<close>

text \<open>
  A shallow embedding of \<^verbatim>\<open>dna_compressor.py\<close>: the adaptive context model, the
  FASTA reader, the two passes of \<^verbatim>\<open>compress_file\<close>, the container layout and
  \<^verbatim>\<open>decompress_file\<close>.

  Conventions of the model.
  \<^item> A Python \<^verbatim>\<open>bytes\<close> value and a Python \<^verbatim>\<open>str\<close> are both a \<open>string\<close>, a list of
    8-bit \<open>char\<close>s. A \<^verbatim>\<open>str\<close> is held as its UTF-8 encoding, so \<^verbatim>\<open>encode('utf-8')\<close> is
    the identity and \<^verbatim>\<open>decode('utf-8')\<close> is a well-formedness check.
  \<^item> The text layer of the reader is ASCII. On a file of ASCII bytes Python's decoding of
    the file is the identity and \<^verbatim>\<open>strip\<close> and \<^verbatim>\<open>upper\<close> are the functions defined
    here. The decoding of other bytes by the encoding of the locale, the Unicode white
    space that \<^verbatim>\<open>strip\<close> removes and the Unicode case mapping of \<^verbatim>\<open>upper\<close> are not
    modelled: a theorem that states what the reader extracts from a file, or what is
    written from it, assumes \<open>ascii content\<close>.
  \<^item> Exceptions are values of the type \<open>error\<close>; a function that can raise returns
    \<open>error + 'a\<close>, and one that also writes files returns the file system with it.
  \<^item> The file system is a map from paths to nodes; a node that exists but cannot be
    opened is \<open>Unreadable\<close>.
  \<^item> The entropy coder (\<^verbatim>\<open>constriction.stream.stack.AnsCoder\<close>) is a library outside
    this program. It is a parameter of the model: a record of its five operations.
  \<^item> \<^verbatim>\<open>numpy.uint32\<close> counts are \<open>32 word\<close>; \<^verbatim>\<open>tobytes\<close> and \<^verbatim>\<open>frombuffer\<close> use
    the byte order of the host, a parameter as well.
  \<^item> The \<^verbatim>\<open>print\<close> calls and the timing are left out.
\<close>

subsection \<open>Exceptions, hosts, files\<close>

datatype error =
    SystemExit nat
  | FileNotFoundError
  | PermissionError
  | OverflowError
  | UnicodeDecodeError
  | ValueError
  | IndexError
  | KeyError

text \<open>
  \<^verbatim>\<open>SystemExit\<close> derives from \<^verbatim>\<open>BaseException\<close>, not from \<^verbatim>\<open>Exception\<close>: the handlers
  \<^verbatim>\<open>except Exception as e\<close> of the callers in app.py do not catch it, and the
  interpreter exits with its status when nothing does.
\<close>

fun except_Exception :: "error \<Rightarrow> bool" where
  "except_Exception (SystemExit _) = False"
| "except_Exception _ = True"

datatype byteorder = Little | Big

datatype node = File string | Unreadable

type_synonym fs = "string \<rightharpoonup> node"

definition open_read :: "fs \<Rightarrow> string \<Rightarrow> error + string" where
  "open_read files path =
     (case files path of
        None \<Rightarrow> Inl FileNotFoundError
      | Some Unreadable \<Rightarrow> Inl PermissionError
      | Some (File content) \<Rightarrow> Inr content)"

definition open_write :: "fs \<Rightarrow> string \<Rightarrow> error + unit" where
  "open_write files path =
     (case files path of
        Some Unreadable \<Rightarrow> Inl PermissionError
      | _ \<Rightarrow> Inr ())"

subsection \<open>Constants\<close>

definition CONTEXT_LENGTH :: nat where
  "CONTEXT_LENGTH = 10"

definition DNA_ALPHABET :: string where
  "DNA_ALPHABET = ''ACGT''"

definition BASE_TO_INDEX :: "char \<rightharpoonup> nat" where
  "BASE_TO_INDEX = map_of (zip DNA_ALPHABET [0..<length DNA_ALPHABET])"

definition INDEX_TO_BASE :: "nat \<rightharpoonup> char" where
  "INDEX_TO_BASE = map_of (zip [0..<length DNA_ALPHABET] DNA_ALPHABET)"

subsection \<open>class ContextModel\<close>

type_synonym u32 = "32 word"

record ContextModel =
  context_length :: nat
  alphabet_size :: nat
  model :: "string \<rightharpoonup> u32 list"

definition ContextModel_init :: "nat \<Rightarrow> nat \<Rightarrow> ContextModel" where
  "ContextModel_init cl asz =
     \<lparr>context_length = cl, alphabet_size = asz, model = Map.empty\<rparr>"

text \<open>
  \<^verbatim>\<open>_get_or_create_context\<close> returns the row of the context and stores a row of ones
  first when the context is new.
\<close>

definition get_or_create_context :: "ContextModel \<Rightarrow> string \<Rightarrow> u32 list \<times> ContextModel" where
  "get_or_create_context m ctx =
     (case model m ctx of
        None \<Rightarrow>
          (let row = replicate (alphabet_size m) (1 :: u32)
           in (row, m\<lparr>model := (model m)(ctx \<mapsto> row)\<rparr>))
      | Some row \<Rightarrow> (row, m))"

text \<open>
  \<^verbatim>\<open>counts[symbol_index] += 1\<close> on a \<^verbatim>\<open>uint32\<close> array: the sum is taken modulo
  \<open>2^32\<close>, and an index past the end raises \<^verbatim>\<open>IndexError\<close> after the row was created.
  Symbol indices come from \<open>BASE_TO_INDEX\<close> or from the decoder and are never negative.
\<close>

definition update :: "ContextModel \<Rightarrow> string \<Rightarrow> nat \<Rightarrow> (error + unit) \<times> ContextModel" where
  "update m ctx symbol_index =
     (let (counts, m1) = get_or_create_context m ctx
      in if symbol_index < length counts
         then (Inr (), m1\<lparr>model := (model m1)(ctx \<mapsto> counts[symbol_index := counts ! symbol_index + 1])\<rparr>)
         else (Inl IndexError, m1))"

text \<open>
  \<^verbatim>\<open>counts / total_count\<close>: the quotients are kept exact; the \<^verbatim>\<open>float64\<close> the coder
  receives is a function of them. \<^verbatim>\<open>np.sum\<close> adds the four counts in 64 bits.
\<close>

definition get_probabilities :: "ContextModel \<Rightarrow> string \<Rightarrow> rat list \<times> ContextModel" where
  "get_probabilities m ctx =
     (let (counts, m1) = get_or_create_context m ctx;
          total_count = sum_list (map unat counts)
      in (map (\<lambda>c. of_nat (unat c) / of_nat total_count) counts, m1))"

text \<open>Any interleaving of the two public operations, as a caller may issue them.\<close>

datatype model_op = Get_probabilities string | Update string nat

fun is_Update :: "model_op \<Rightarrow> bool" where
  "is_Update (Update _ _) = True"
| "is_Update (Get_probabilities _) = False"

fun apply_op :: "ContextModel \<Rightarrow> model_op \<Rightarrow> ContextModel" where
  "apply_op m (Get_probabilities ctx) = snd (get_probabilities m ctx)"
| "apply_op m (Update ctx i) = snd (update m ctx i)"

definition run_ops :: "ContextModel \<Rightarrow> model_op list \<Rightarrow> ContextModel" where
  "run_ops m ops = foldl apply_op m ops"

text \<open>\<^verbatim>\<open>deque(maxlen=n).append(x)\<close>: a full deque drops its oldest element.\<close>

definition deque_append :: "nat \<Rightarrow> 'a list \<Rightarrow> 'a \<Rightarrow> 'a list" where
  "deque_append maxlen q x = drop (Suc (length q) - maxlen) (q @ [x])"

definition initial_queue :: string where
  "initial_queue = replicate CONTEXT_LENGTH (CHR ''N'')"

subsection \<open>Bytes\<close>

text \<open>\<^verbatim>\<open>int.to_bytes(length, 'big')\<close> and \<^verbatim>\<open>int.from_bytes(b, 'big')\<close>.\<close>

fun to_le :: "nat \<Rightarrow> nat \<Rightarrow> string" where
  "to_le 0 n = []"
| "to_le (Suc k) n = char_of (n mod 256) # to_le k (n div 256)"

fun from_le :: "string \<Rightarrow> nat" where
  "from_le [] = 0"
| "from_le (c # cs) = of_char c + 256 * from_le cs"

definition to_bytes_big :: "nat \<Rightarrow> nat \<Rightarrow> error + string" where
  "to_bytes_big n len = (if n < 256 ^ len then Inr (rev (to_le len n)) else Inl OverflowError)"

definition from_bytes_big :: "string \<Rightarrow> nat" where
  "from_bytes_big b = from_le (rev b)"

text \<open>\<^verbatim>\<open>ndarray.tobytes()\<close> and \<^verbatim>\<open>np.frombuffer(buf, dtype=np.uint32)\<close> in host byte order.\<close>

definition word_bytes :: "byteorder \<Rightarrow> u32 \<Rightarrow> string" where
  "word_bytes bo w = (case bo of Little \<Rightarrow> to_le 4 (unat w) | Big \<Rightarrow> rev (to_le 4 (unat w)))"

definition bytes_word :: "byteorder \<Rightarrow> string \<Rightarrow> u32" where
  "bytes_word bo b = of_nat (case bo of Little \<Rightarrow> from_le b | Big \<Rightarrow> from_le (rev b))"

definition tobytes :: "byteorder \<Rightarrow> u32 list \<Rightarrow> string" where
  "tobytes bo ws = concat (map (word_bytes bo) ws)"

function words_of :: "byteorder \<Rightarrow> string \<Rightarrow> u32 list" where
  "words_of bo b = (if length b < 4 then [] else bytes_word bo (take 4 b) # words_of bo (drop 4 b))"
  by pat_completeness auto
termination
  by (relation "measure (\<lambda>(bo, b). length b)") auto

definition frombuffer :: "byteorder \<Rightarrow> string \<Rightarrow> error + u32 list" where
  "frombuffer bo b = (if length b mod 4 \<noteq> 0 then Inl ValueError else Inr (words_of bo b))"

text \<open>
  \<^verbatim>\<open>bytes.decode('utf-8')\<close>: the strict decoder accepts exactly the well-formed byte
  sequences of the Unicode standard.
\<close>

definition cont_byte :: "char \<Rightarrow> bool" where
  "cont_byte c = (128 \<le> (of_char c :: nat) \<and> (of_char c :: nat) \<le> 191)"

definition in_range :: "nat \<Rightarrow> nat \<Rightarrow> char \<Rightarrow> bool" where
  "in_range lo hi c = (lo \<le> (of_char c :: nat) \<and> (of_char c :: nat) \<le> hi)"

fun utf8_ok :: "string \<Rightarrow> bool" where
  "utf8_ok [] = True"
| "utf8_ok (b # bs) =
     (if in_range 0 127 b then utf8_ok bs
      else if in_range 194 223 b then
        (case bs of c1 # r \<Rightarrow> cont_byte c1 \<and> utf8_ok r | _ \<Rightarrow> False)
      else if in_range 224 239 b then
        (case bs of c1 # c2 # r \<Rightarrow>
           (if in_range 224 224 b then in_range 160 191 c1
            else if in_range 237 237 b then in_range 128 159 c1
            else cont_byte c1) \<and> cont_byte c2 \<and> utf8_ok r
         | _ \<Rightarrow> False)
      else if in_range 240 244 b then
        (case bs of c1 # c2 # c3 # r \<Rightarrow>
           (if in_range 240 240 b then in_range 144 191 c1
            else if in_range 244 244 b then in_range 128 143 c1
            else cont_byte c1) \<and> cont_byte c2 \<and> cont_byte c3 \<and> utf8_ok r
         | _ \<Rightarrow> False)
      else False)"

definition decode_utf8 :: "string \<Rightarrow> error + string" where
  "decode_utf8 b = (if utf8_ok b then Inr b else Inl UnicodeDecodeError)"

definition ascii :: "string \<Rightarrow> bool" where
  "ascii s = (\<forall>c \<in> set s. (of_char c :: nat) < 128)"

subsection \<open>read\_fasta\_sequence\_and\_header\<close>

text \<open>
  Text mode with universal newlines: \<^verbatim>\<open>\r\n\<close> and \<^verbatim>\<open>\r\<close> are read as \<^verbatim>\<open>\n\<close>, and
  iterating the file gives its lines with their terminators.
\<close>

fun universal_newlines :: "string \<Rightarrow> string" where
  "universal_newlines [] = []"
| "universal_newlines [c] = [if c = CHR 0x0D then CHR 0x0A else c]"
| "universal_newlines (c # d # r) =
     (if c = CHR 0x0D \<and> d = CHR 0x0A then CHR 0x0A # universal_newlines r
      else if c = CHR 0x0D then CHR 0x0A # universal_newlines (d # r)
      else c # universal_newlines (d # r))"

fun lines_from :: "string \<Rightarrow> string \<Rightarrow> string list" where
  "lines_from acc [] = (if acc = [] then [] else [acc])"
| "lines_from acc (c # cs) =
     (if c = CHR 0x0A then (acc @ [c]) # lines_from [] cs else lines_from (acc @ [c]) cs)"

definition file_lines :: "string \<Rightarrow> string list" where
  "file_lines content = lines_from [] (universal_newlines content)"

text \<open>
  \<^verbatim>\<open>startswith('>')\<close>, and \<^verbatim>\<open>strip()\<close> and \<^verbatim>\<open>upper()\<close> as they act on ASCII text: the
  ten ASCII characters that Python counts as white space, and the letters a to z.
\<close>

definition startswith_gt :: "string \<Rightarrow> bool" where
  "startswith_gt line = (case line of [] \<Rightarrow> False | c # _ \<Rightarrow> c = CHR ''>'')"

definition is_space :: "char \<Rightarrow> bool" where
  "is_space c = (c \<in> set [CHR 0x09, CHR 0x0A, CHR 0x0B, CHR 0x0C, CHR 0x0D,
                           CHR 0x1C, CHR 0x1D, CHR 0x1E, CHR 0x1F, CHR 0x20])"

definition strip :: "string \<Rightarrow> string" where
  "strip s = rev (dropWhile is_space (rev (dropWhile is_space s)))"

definition upper_char :: "char \<Rightarrow> char" where
  "upper_char c =
     (if 97 \<le> (of_char c :: nat) \<and> (of_char c :: nat) \<le> 122
      then char_of ((of_char c :: nat) - 32) else c)"

definition upper :: "string \<Rightarrow> string" where
  "upper s = map upper_char s"

datatype event = HEADER string | BASE char

text \<open>
  The first loop consumes lines of the file iterator until one starts with \<^verbatim>\<open>>\<close>;
  the second loop continues with the lines the first one left.
\<close>

fun header_loop :: "string list \<Rightarrow> event list \<times> string list" where
  "header_loop [] = ([], [])"
| "header_loop (line # rest) =
     (if startswith_gt line then ([HEADER (strip line)], rest) else header_loop rest)"

fun bases_loop :: "string list \<Rightarrow> event list" where
  "bases_loop [] = []"
| "bases_loop (line # rest) =
     (if startswith_gt line then bases_loop rest
      else map BASE (filter (\<lambda>c. c \<in> dom BASE_TO_INDEX) (upper (strip line))) @ bases_loop rest)"

definition fasta_events :: "string \<Rightarrow> event list" where
  "fasta_events content =
     (let (hs, rest) = header_loop (file_lines content) in hs @ bases_loop rest)"

definition read_fasta_sequence_and_header :: "fs \<Rightarrow> string \<Rightarrow> error + event list" where
  "read_fasta_sequence_and_header files filepath =
     (case open_read files filepath of
        Inl FileNotFoundError \<Rightarrow> Inl (SystemExit 1)
      | Inl e \<Rightarrow> Inl e
      | Inr content \<Rightarrow> Inr (fasta_events content))"

subsection \<open>The entropy coder interface\<close>

text \<open>
  The operations the program calls on \<^verbatim>\<open>AnsCoder\<close>: the constructor without and with
  compressed words, \<^verbatim>\<open>encode_reverse\<close> and \<^verbatim>\<open>decode\<close> of one symbol under a
  \<^verbatim>\<open>Categorical\<close> distribution, and \<^verbatim>\<open>get_compressed\<close>. \<open>'st\<close> is the coder's state.
\<close>

record 'st coder =
  AnsCoder_empty :: "'st"
  AnsCoder_of :: "u32 list \<Rightarrow> error + 'st"
  encode_reverse :: "nat \<Rightarrow> rat list \<Rightarrow> 'st \<Rightarrow> error + 'st"
  get_compressed :: "'st \<Rightarrow> u32 list"
  decode :: "rat list \<Rightarrow> 'st \<Rightarrow> error + nat \<times> 'st"

text \<open>
  What the program relies on: a symbol pushed under a distribution over the alphabet
  that gives every symbol a positive probability is the next one popped under the same
  distribution, which restores the state; and the words of a state rebuild it.
\<close>

definition coder_ok :: "'st coder \<Rightarrow> bool" where
  "coder_ok C =
     ((\<forall>i probs st.
          length probs = length DNA_ALPHABET \<and> i < length probs \<and> (\<forall>p \<in> set probs. 0 < p) \<longrightarrow>
          (\<exists>st'. encode_reverse C i probs st = Inr st' \<and> decode C probs st' = Inr (i, st)))
      \<and> (\<forall>st. AnsCoder_of C (get_compressed C st) = Inr st))"

text \<open>
  The plainest coder with this stack discipline: one word per symbol, the last pushed
  on top, and a pop from the empty stack gives symbol 0 (the library's decoder does not
  fail on an exhausted stack either). It runs the orchestration on concrete inputs.
\<close>

definition stack_coder :: "u32 list coder" where
  "stack_coder =
     \<lparr>AnsCoder_empty = [],
      AnsCoder_of = (\<lambda>ws. Inr ws),
      encode_reverse = (\<lambda>i probs st. Inr (of_nat i # st)),
      get_compressed = (\<lambda>st. st),
      decode = (\<lambda>probs st. case st of [] \<Rightarrow> Inr (0, []) | w # ws \<Rightarrow> Inr (unat w, ws))\<rparr>"

subsection \<open>compress\_file\<close>

text \<open>The loop over the reader's events: the last header wins, the bases are appended.\<close>

fun collect :: "string \<Rightarrow> string \<Rightarrow> event list \<Rightarrow> string \<times> string" where
  "collect header sequence [] = (header, sequence)"
| "collect header sequence (HEADER data # es) = collect data sequence es"
| "collect header sequence (BASE data # es) = collect header (sequence @ [data]) es"

text \<open>Pass 1: one iteration per base, in document order.\<close>

fun pass1 :: "ContextModel \<Rightarrow> string \<Rightarrow> string \<Rightarrow>
    error + (nat \<times> rat list) list \<times> ContextModel \<times> string" where
  "pass1 m context_queue [] = Inr ([], m, context_queue)"
| "pass1 m context_queue (base # rest) =
     (let context_str = context_queue;
          (probabilities, m1) = get_probabilities m context_str
      in case BASE_TO_INDEX base of
           None \<Rightarrow> Inl KeyError
         | Some symbol_index \<Rightarrow>
             (case update m1 context_str symbol_index of
                (Inl e, _) \<Rightarrow> Inl e
              | (Inr _, m2) \<Rightarrow>
                  (case pass1 m2 (deque_append CONTEXT_LENGTH context_queue base) rest of
                     Inl e \<Rightarrow> Inl e
                   | Inr (states, m3, q3) \<Rightarrow>
                       Inr ((symbol_index, probabilities) # states, m3, q3))))"

text \<open>Pass 2: the pairs are pushed last first, then the coder is serialised.\<close>

fun encode_all :: "'st coder \<Rightarrow> (nat \<times> rat list) list \<Rightarrow> 'st \<Rightarrow> error + 'st" where
  "encode_all C [] encoder = Inr encoder"
| "encode_all C ((symbol_index, probabilities) # xs) encoder =
     (case encode_reverse C symbol_index probabilities encoder of
        Inl e \<Rightarrow> Inl e
      | Inr encoder' \<Rightarrow> encode_all C xs encoder')"

definition pass2 :: "'st coder \<Rightarrow> (nat \<times> rat list) list \<Rightarrow> error + u32 list" where
  "pass2 C states_to_encode =
     (case encode_all C (rev states_to_encode) (AnsCoder_empty C) of
        Inl e \<Rightarrow> Inl e
      | Inr encoder \<Rightarrow> Inr (get_compressed C encoder))"

text \<open>
  The \<^verbatim>\<open>with open(output_path, 'wb')\<close> block: the result and the bytes that reached the
  file. A \<^verbatim>\<open>to_bytes\<close> that overflows raises after the file was created and the earlier
  fields were written.
\<close>

definition write_container :: "byteorder \<Rightarrow> nat \<Rightarrow> string \<Rightarrow> u32 list \<Rightarrow> (error + unit) \<times> string" where
  "write_container bo seq_len header_bytes compressed_data =
     (case to_bytes_big seq_len 8 of
        Inl e \<Rightarrow> (Inl e, [])
      | Inr b1 \<Rightarrow>
          (case to_bytes_big (length header_bytes) 2 of
             Inl e \<Rightarrow> (Inl e, b1)
           | Inr b2 \<Rightarrow> (Inr (), b1 @ b2 @ header_bytes @ tobytes bo compressed_data)))"

definition compress_file :: "'st coder \<Rightarrow> byteorder \<Rightarrow> fs \<Rightarrow> string \<Rightarrow> string \<Rightarrow> (error + unit) \<times> fs" where
  "compress_file C bo files input_path output_path =
     (case read_fasta_sequence_and_header files input_path of
        Inl e \<Rightarrow> (Inl e, files)
      | Inr events \<Rightarrow>
          (let (header, sequence) = collect [] [] events;
               seq_len = length sequence
           in if seq_len = 0 then
                (case open_write files output_path of
                   Inl e \<Rightarrow> (Inl e, files)
                 | Inr _ \<Rightarrow> (Inr (), files(output_path \<mapsto> File (replicate 8 (CHR 0x00)))))
              else
                (case pass1 (ContextModel_init CONTEXT_LENGTH (length DNA_ALPHABET))
                        initial_queue sequence of
                   Inl e \<Rightarrow> (Inl e, files)
                 | Inr (states_to_encode, _, _) \<Rightarrow>
                     (case pass2 C states_to_encode of
                        Inl e \<Rightarrow> (Inl e, files)
                      | Inr compressed_data \<Rightarrow>
                          (let header_bytes = header
                           in case open_write files output_path of
                                Inl e \<Rightarrow> (Inl e, files)
                              | Inr _ \<Rightarrow>
                                  (let (r, written) = write_container bo seq_len header_bytes compressed_data
                                   in (r, files(output_path \<mapsto> File written))))))))"

subsection \<open>decompress\_file\<close>

text \<open>The decode loop: \<open>n\<close> iterations, the decoded bases appended in forward order.\<close>

fun decode_loop :: "'st coder \<Rightarrow> nat \<Rightarrow> ContextModel \<Rightarrow> string \<Rightarrow> 'st \<Rightarrow> string \<Rightarrow>
    error + ContextModel \<times> string \<times> 'st \<times> string" where
  "decode_loop C 0 m context_queue decoder decoded_sequence =
     Inr (m, context_queue, decoder, decoded_sequence)"
| "decode_loop C (Suc n) m context_queue decoder decoded_sequence =
     (let context_str = context_queue;
          (probabilities, m1) = get_probabilities m context_str
      in case decode C probabilities decoder of
           Inl e \<Rightarrow> Inl e
         | Inr (symbol_index, decoder') \<Rightarrow>
             (case update m1 context_str symbol_index of
                (Inl e, _) \<Rightarrow> Inl e
              | (Inr _, m2) \<Rightarrow>
                  (case INDEX_TO_BASE symbol_index of
                     None \<Rightarrow> Inl KeyError
                   | Some base \<Rightarrow>
                       decode_loop C n m2 (deque_append CONTEXT_LENGTH context_queue base)
                         decoder' (decoded_sequence @ [base]))))"

text \<open>\<^verbatim>\<open>restored_sequence[i:i+70]\<close> for \<^verbatim>\<open>i in range(0, len(restored_sequence), 70)\<close>.\<close>

function slices70 :: "string \<Rightarrow> string list" where
  "slices70 s = (if s = [] then [] else take 70 s # slices70 (drop 70 s))"
  by pat_completeness auto
termination
  by (relation "measure length") auto

definition render :: "string \<Rightarrow> string \<Rightarrow> string" where
  "render header restored_sequence =
     header @ [CHR 0x0A] @ concat (map (\<lambda>l. l @ [CHR 0x0A]) (slices70 restored_sequence))"

text \<open>
  The fields of the container as \<^verbatim>\<open>f.read\<close> returns them: a read past the end is short,
  and \<^verbatim>\<open>int.from_bytes\<close> of no bytes is 0.
\<close>

record container =
  c_seq_len :: nat
  c_header_len :: nat
  c_header_bytes :: string
  c_rest :: string

definition read_container :: "string \<Rightarrow> container" where
  "read_container content =
     (let seq_len = from_bytes_big (take 8 content);
          r1 = drop 8 content;
          header_len = from_bytes_big (take 2 r1);
          r2 = drop 2 r1
      in \<lparr>c_seq_len = seq_len, c_header_len = header_len,
          c_header_bytes = take header_len r2, c_rest = drop header_len r2\<rparr>)"

definition decompress_file :: "'st coder \<Rightarrow> byteorder \<Rightarrow> fs \<Rightarrow> string \<Rightarrow> string \<Rightarrow> (error + unit) \<times> fs" where
  "decompress_file C bo files input_path output_path =
     (case open_read files input_path of
        Inl FileNotFoundError \<Rightarrow> (Inl (SystemExit 1), files)
      | Inl e \<Rightarrow> (Inl e, files)
      | Inr content \<Rightarrow>
          (let c = read_container content;
               seq_len = c_seq_len c
           in case decode_utf8 (c_header_bytes c) of
                Inl e \<Rightarrow> (Inl e, files)
              | Inr header \<Rightarrow>
                  (case frombuffer bo (c_rest c) of
                     Inl e \<Rightarrow> (Inl e, files)
                   | Inr compressed_data \<Rightarrow>
                       if seq_len = 0 then
                         (case open_write files output_path of
                            Inl e \<Rightarrow> (Inl e, files)
                          | Inr _ \<Rightarrow> (Inr (), files(output_path \<mapsto> File header)))
                       else
                         (case AnsCoder_of C compressed_data of
                            Inl e \<Rightarrow> (Inl e, files)
                          | Inr decoder \<Rightarrow>
                              (case decode_loop C seq_len
                                      (ContextModel_init CONTEXT_LENGTH (length DNA_ALPHABET))
                                      initial_queue decoder [] of
                                 Inl e \<Rightarrow> (Inl e, files)
                               | Inr (_, _, _, decoded_sequence) \<Rightarrow>
                                   (case open_write files output_path of
                                      Inl e \<Rightarrow> (Inl e, files)
                                    | Inr _ \<Rightarrow>
                                        (Inr (), files(output_path \<mapsto>
                                           File (render header decoded_sequence)))))))))"

subsection \<open>Invariants used in the proofs\<close>

text \<open>Every count of every row lies between 1 and \<open>k\<close>.\<close>

definition counts_within :: "nat \<Rightarrow> ContextModel \<Rightarrow> bool" where
  "counts_within k m =
     (\<forall>ctx row. model m ctx = Some row \<longrightarrow> (\<forall>c \<in> set row. 1 \<le> unat c \<and> unat c \<le> k))"

subsection \<open>A concrete container\<close>

text \<open>
  Sequence length 2, the header \<^verbatim>\<open>>h\<close> and the code words 1 and 2 as a little-endian host
  writes them.
\<close>

definition cg_container :: string where
  "cg_container = [CHR 0x00, CHR 0x00, CHR 0x00, CHR 0x00, CHR 0x00, CHR 0x00, CHR 0x00, CHR 0x02,
                   CHR 0x00, CHR 0x02, CHR ''>'', CHR ''h'',
                   CHR 0x01, CHR 0x00, CHR 0x00, CHR 0x00, CHR 0x02, CHR 0x00, CHR 0x00, CHR 0x00]"

text \<open>Every row has one count per symbol of the alphabet.\<close>

definition rows_sized :: "ContextModel \<Rightarrow> bool" where
  "rows_sized m = (\<forall>ctx row. model m ctx = Some row \<longrightarrow> length row = alphabet_size m)"

definition table_ok :: "nat \<Rightarrow> ContextModel \<Rightarrow> bool" where
  "table_ok k m = (alphabet_size m = length DNA_ALPHABET \<and> rows_sized m \<and> counts_within k m)"

text \<open>A pair that pass 1 hands to the coder: a symbol of the alphabet and a distribution
  over the alphabet with no zero.\<close>

definition valid_pair :: "nat \<times> rat list \<Rightarrow> bool" where
  "valid_pair sp =
     (length (snd sp) = length DNA_ALPHABET \<and> fst sp < length (snd sp)
      \<and> (\<forall>p \<in> set (snd sp). 0 < p))"

subsection \<open>More concrete inputs\<close>

text \<open>A header line of 65536 bytes, and the container of the sequence \<^verbatim>\<open>AC\<close> under the
  header \<^verbatim>\<open>>h\<close> with the code words 0 and 1.\<close>

definition long_header :: string where
  "long_header = CHR ''>'' # replicate 65535 (CHR ''x'')"

definition ac_container :: string where
  "ac_container = [CHR 0x00, CHR 0x00, CHR 0x00, CHR 0x00, CHR 0x00, CHR 0x00, CHR 0x00, CHR 0x02,
                   CHR 0x00, CHR 0x02, CHR ''>'', CHR ''h'',
                   CHR 0x00, CHR 0x00, CHR 0x00, CHR 0x00, CHR 0x01, CHR 0x00, CHR 0x00, CHR 0x00]"

section \<open>Basic facts\<close>

lemma BASE_TO_INDEX_eq:
  "BASE_TO_INDEX c =
     (if c = CHR ''A'' then Some 0 else if c = CHR ''C'' then Some 1
      else if c = CHR ''G'' then Some 2 else if c = CHR ''T'' then Some 3 else None)"
  by (simp add: BASE_TO_INDEX_def DNA_ALPHABET_def upt_rec)

lemma INDEX_TO_BASE_eq:
  "INDEX_TO_BASE i =
     (if i = 0 then Some (CHR ''A'') else if i = 1 then Some (CHR ''C'')
      else if i = 2 then Some (CHR ''G'') else if i = 3 then Some (CHR ''T'') else None)"
  by (simp add: INDEX_TO_BASE_def DNA_ALPHABET_def upt_rec)

lemma INDEX_TO_BASE_inverse:
  "BASE_TO_INDEX b = Some i \<Longrightarrow> INDEX_TO_BASE i = Some b"
  by (auto simp: BASE_TO_INDEX_eq INDEX_TO_BASE_eq split: if_splits)

lemma BASE_TO_INDEX_inverse:
  "INDEX_TO_BASE i = Some b \<Longrightarrow> BASE_TO_INDEX b = Some i"
  by (auto simp: BASE_TO_INDEX_eq INDEX_TO_BASE_eq split: if_splits)

lemma BASE_TO_INDEX_less: "BASE_TO_INDEX b = Some i \<Longrightarrow> i < 4"
  by (auto simp: BASE_TO_INDEX_eq split: if_splits)

lemma open_write_ok: "files path \<noteq> Some Unreadable \<Longrightarrow> open_write files path = Inr ()"
  by (auto simp: open_write_def split: option.splits node.splits)

section \<open>The reader on a file without a header line\<close>

lemma header_loop_no_header:
  "\<forall>line \<in> set ls. \<not> startswith_gt line \<Longrightarrow> header_loop ls = ([], [])"
  by (induction ls) auto

lemma fasta_events_no_header:
  "\<forall>line \<in> set (file_lines content). \<not> startswith_gt line \<Longrightarrow> fasta_events content = []"
  by (simp add: fasta_events_def header_loop_no_header)

text \<open>
  Claim C7: for a file with no line starting with \<^verbatim>\<open>>\<close> the reader should return the
  empty header together with all the bases on the file's lines. The code does not: the
  header loop runs the file iterator to its end looking for a header, so the base loop
  that follows gets no line at all (\<open>fasta_events_no_header\<close>). On the two-line file
  \<^verbatim>\<open>ACGT / TTGA\<close> the reader yields no event, and \<^verbatim>\<open>compress_file\<close> takes the
  empty-sequence path and writes the 8 zero bytes.
\<close>

theorem headerless_file_yields_no_bases:
  "read_fasta_sequence_and_header [''plain.fa'' \<mapsto> File ''ACGT\<newline>TTGA\<newline>''] ''plain.fa'' = Inr []
   \<and> fst (compress_file stack_coder Little [''plain.fa'' \<mapsto> File ''ACGT\<newline>TTGA\<newline>'']
           ''plain.fa'' ''plain.bin'') = Inr ()
   \<and> snd (compress_file stack_coder Little [''plain.fa'' \<mapsto> File ''ACGT\<newline>TTGA\<newline>'']
           ''plain.fa'' ''plain.bin'') ''plain.bin''
       = Some (File (replicate 8 (CHR 0x00)))"
proof -
  have "fasta_events ''ACGT\<newline>TTGA\<newline>'' = []"
    by (rule fasta_events_no_header) (simp add: file_lines_def startswith_gt_def)
  then show ?thesis
    by (simp add: read_fasta_sequence_and_header_def open_read_def compress_file_def open_write_def)
qed

section \<open>The empty sequence\<close>

lemma from_le_replicate_zero: "from_le (replicate n (CHR 0x00)) = 0"
  by (induction n) auto

lemma read_container_zeros:
  "read_container (replicate 8 (CHR 0x00)) =
     \<lparr>c_seq_len = 0, c_header_len = 0, c_header_bytes = [], c_rest = []\<rparr>"
  by (simp add: read_container_def from_bytes_big_def from_le_replicate_zero Let_def)

lemma compress_file_empty:
  assumes "files input_path = Some (File content)"
    and "snd (collect [] [] (fasta_events content)) = []"
    and "files output_path \<noteq> Some Unreadable"
  shows "compress_file C bo files input_path output_path =
           (Inr (), files(output_path \<mapsto> File (replicate 8 (CHR 0x00))))"
proof -
  obtain header where "collect [] [] (fasta_events content) = (header, [])"
    using assms(2) by (cases "collect [] [] (fasta_events content)") auto
  then show ?thesis
    using assms(1,3) open_write_ok [of files output_path]
    by (simp add: compress_file_def read_fasta_sequence_and_header_def open_read_def)
qed

lemma decompress_file_zeros:
  assumes "files input_path = Some (File (replicate 8 (CHR 0x00)))"
    and "files output_path \<noteq> Some Unreadable"
  shows "decompress_file C bo files input_path output_path =
           (Inr (), files(output_path \<mapsto> File []))"
  using assms open_write_ok [of files output_path]
  by (simp add: decompress_file_def open_read_def read_container_zeros decode_utf8_def
      frombuffer_def)

text \<open>
  Claim C3: when the input holds no base, \<^verbatim>\<open>compress_file\<close> writes exactly 8 zero
  bytes, whatever the header was, and \<^verbatim>\<open>decompress_file\<close> on these 8 bytes writes the
  empty text: no header and no sequence. Both output paths are assumed to open.
\<close>

theorem empty_sequence_container:
  assumes "files input_path = Some (File content)"
    and "snd (collect [] [] (fasta_events content)) = []"
    and "files output_path \<noteq> Some Unreadable"
    and "restored_path \<noteq> output_path \<longrightarrow> files restored_path \<noteq> Some Unreadable"
  shows "compress_file C bo files input_path output_path =
           (Inr (), files(output_path \<mapsto> File (replicate 8 (CHR 0x00))))
       \<and> decompress_file C bo (files(output_path \<mapsto> File (replicate 8 (CHR 0x00))))
            output_path restored_path =
           (Inr (), files(output_path \<mapsto> File (replicate 8 (CHR 0x00)), restored_path \<mapsto> File []))
       \<and> fasta_events [] = []"
proof -
  let ?files' = "files(output_path \<mapsto> File (replicate 8 (CHR 0x00)))"
  have "?files' restored_path \<noteq> Some Unreadable"
    using assms(4) by simp
  moreover have "?files' output_path = Some (File (replicate 8 (CHR 0x00)))"
    by simp
  ultimately have "decompress_file C bo ?files' output_path restored_path =
      (Inr (), ?files'(restored_path \<mapsto> File []))"
    by (rule decompress_file_zeros [rotated])
  moreover have "fasta_events [] = []"
    by (simp add: fasta_events_def file_lines_def)
  ultimately show ?thesis
    using compress_file_empty [OF assms(1,2,3)] by simp
qed

theorem empty_sequence_container_witness:
  "compress_file stack_coder Little [''e.fa'' \<mapsto> File ''>only a header\<newline>''] ''e.fa'' ''e.bin'' =
     (Inr (), [''e.fa'' \<mapsto> File ''>only a header\<newline>'', ''e.bin'' \<mapsto> File (replicate 8 (CHR 0x00))])
   \<and> decompress_file stack_coder Little
        [''e.fa'' \<mapsto> File ''>only a header\<newline>'', ''e.bin'' \<mapsto> File (replicate 8 (CHR 0x00))]
        ''e.bin'' ''e.out'' =
     (Inr (), [''e.fa'' \<mapsto> File ''>only a header\<newline>'', ''e.bin'' \<mapsto> File (replicate 8 (CHR 0x00)),
               ''e.out'' \<mapsto> File []])"
proof -
  have "snd (collect [] [] (fasta_events ''>only a header\<newline>'')) = []"
    by (simp add: fasta_events_def file_lines_def startswith_gt_def)
  then show ?thesis
    using empty_sequence_container [of "[''e.fa'' \<mapsto> File ''>only a header\<newline>'']" "''e.fa''"
        "''>only a header\<newline>''" "''e.bin''" "''e.out''" stack_coder Little]
    by simp
qed

section \<open>An input that cannot be opened\<close>

text \<open>
  Claim C6 as the spec states it: a missing input makes \<^verbatim>\<open>compress_file\<close> and
  \<^verbatim>\<open>decompress_file\<close> fail with an error that is returned to the caller and does not
  terminate the process. The code catches \<^verbatim>\<open>FileNotFoundError\<close> itself and calls
  \<^verbatim>\<open>sys.exit(1)\<close>: what reaches the caller is \<^verbatim>\<open>SystemExit\<close>, which the callers'
  \<^verbatim>\<open>except Exception\<close> does not catch.
\<close>

theorem missing_input_exits:
  "fst (compress_file stack_coder Little Map.empty ''missing.fa'' ''out.bin'') = Inl (SystemExit 1)
   \<and> fst (decompress_file stack_coder Little Map.empty ''missing.bin'' ''out.fa'') = Inl (SystemExit 1)
   \<and> \<not> except_Exception (SystemExit 1)"
  by (simp add: compress_file_def decompress_file_def read_fasta_sequence_and_header_def
      open_read_def)

text \<open>
  Claim C6, amended: when the input path does not exist both functions raise
  \<^verbatim>\<open>SystemExit\<close> with status 1, and when it exists but cannot be opened they raise the
  operating system's error; in both cases nothing is retried and no file is written.
\<close>

theorem unopenable_input:
  assumes "\<forall>content. files input_path \<noteq> Some (File content)"
  shows "compress_file C bo files input_path output_path =
           (Inl (if files input_path = None then SystemExit 1 else PermissionError), files)
       \<and> decompress_file C bo files input_path output_path =
           (Inl (if files input_path = None then SystemExit 1 else PermissionError), files)"
proof (cases "files input_path")
  case None
  then show ?thesis
    by (simp add: compress_file_def decompress_file_def read_fasta_sequence_and_header_def
        open_read_def)
next
  case (Some nd)
  with assms have "nd = Unreadable"
    by (cases nd) auto
  with Some show ?thesis
    by (simp add: compress_file_def decompress_file_def read_fasta_sequence_and_header_def
        open_read_def)
qed

theorem unopenable_input_witness:
  "compress_file stack_coder Big [''locked.fa'' \<mapsto> Unreadable] ''locked.fa'' ''out.bin'' =
     (Inl PermissionError, [''locked.fa'' \<mapsto> Unreadable])
   \<and> decompress_file stack_coder Big [''locked.fa'' \<mapsto> Unreadable] ''gone.bin'' ''out.fa'' =
     (Inl (SystemExit 1), [''locked.fa'' \<mapsto> Unreadable])"
  using unopenable_input [of "[''locked.fa'' \<mapsto> Unreadable]" "''locked.fa''" stack_coder Big "''out.bin''"]
    unopenable_input [of "[''locked.fa'' \<mapsto> Unreadable]" "''gone.bin''" stack_coder Big "''out.fa''"]
  by simp

section \<open>The frequency table\<close>

lemma get_or_create_context_model:
  "model (snd (get_or_create_context m ctx)) =
     (case model m ctx of None \<Rightarrow> (model m)(ctx \<mapsto> replicate (alphabet_size m) 1) | Some row \<Rightarrow> model m)"
  by (simp add: get_or_create_context_def Let_def split: option.splits)

lemma get_or_create_context_fst:
  "model (snd (get_or_create_context m ctx)) ctx = Some (fst (get_or_create_context m ctx))"
  by (simp add: get_or_create_context_def Let_def split: option.splits)

lemma get_or_create_context_other:
  "model m c = Some row \<Longrightarrow> model (snd (get_or_create_context m ctx)) c = Some row"
  by (auto simp: get_or_create_context_def Let_def split: option.splits)

lemma get_or_create_context_fields:
  "alphabet_size (snd (get_or_create_context m ctx)) = alphabet_size m"
  "context_length (snd (get_or_create_context m ctx)) = context_length m"
  by (simp_all add: get_or_create_context_def Let_def split: option.splits)

lemma get_probabilities_snd:
  "snd (get_probabilities m ctx) = snd (get_or_create_context m ctx)"
  by (simp add: get_probabilities_def Let_def split: prod.splits)

lemma update_model:
  "model (snd (update m ctx i)) =
     (let counts = fst (get_or_create_context m ctx); t = model (snd (get_or_create_context m ctx))
      in if i < length counts then t(ctx \<mapsto> counts[i := counts ! i + 1]) else t)"
  by (simp add: update_def Let_def split: prod.splits)

lemma counts_within_get_or_create:
  assumes "counts_within k m" "1 \<le> k"
  shows "counts_within k (snd (get_or_create_context m ctx))"
  using assms
  by (auto simp: counts_within_def get_or_create_context_model split: option.splits if_splits)

lemma unat_succ_bounded:
  fixes c :: u32
  assumes "unat c \<le> k" "k < 2 ^ 32 - 1"
  shows "unat (c + 1) = Suc (unat c)"
proof -
  have "unat c + 1 < 2 ^ 32" using assms by simp
  then show ?thesis
    by (simp add: unat_word_ariths)
qed

lemma counts_within_update:
  assumes "counts_within k m" "1 \<le> k" "k < 2 ^ 32 - 1"
  shows "counts_within (Suc k) (snd (update m ctx i))"
proof -
  let ?m1 = "snd (get_or_create_context m ctx)"
  let ?counts = "fst (get_or_create_context m ctx)"
  have w1: "counts_within k ?m1"
    using assms(1,2) by (rule counts_within_get_or_create)
  have row: "model ?m1 ctx = Some ?counts"
    by (rule get_or_create_context_fst)
  have old: "\<forall>c \<in> set ?counts. 1 \<le> unat c \<and> unat c \<le> k"
    using w1 row by (auto simp: counts_within_def)
  show ?thesis
    unfolding counts_within_def
  proof (intro allI impI ballI)
    fix c row x
    assume r: "model (snd (update m ctx i)) c = Some row" and x: "x \<in> set row"
    show "1 \<le> unat x \<and> unat x \<le> Suc k"
    proof (cases "c = ctx \<and> i < length ?counts")
      case True
      then have "row = ?counts[i := ?counts ! i + 1]"
        using r by (simp add: update_model Let_def)
      then have "x = ?counts ! i + 1 \<or> x \<in> set ?counts"
        using x set_update_subset_insert [of ?counts i "?counts ! i + 1"] by auto
      moreover have "unat (?counts ! i + 1) = Suc (unat (?counts ! i))"
        using old True assms(3) by (intro unat_succ_bounded [of _ k]) auto
      moreover have "unat (?counts ! i) \<le> k"
        using old True by simp
      moreover have "x \<in> set ?counts \<Longrightarrow> 1 \<le> unat x \<and> unat x \<le> k"
        using old by simp
      ultimately show ?thesis
        by auto
    next
      case False
      then have "model ?m1 c = Some row"
        using r by (auto simp: update_model Let_def split: if_splits)
      then have "1 \<le> unat x \<and> unat x \<le> k"
        using w1 x by (auto simp: counts_within_def)
      then show ?thesis
        by simp
    qed
  qed
qed

lemma counts_within_mono: "counts_within k m \<Longrightarrow> k \<le> k' \<Longrightarrow> counts_within k' m"
  by (fastforce simp: counts_within_def)

lemma counts_within_run_ops:
  assumes "counts_within k m" "1 \<le> k" "k + length (filter is_Update ops) < 2 ^ 32"
  shows "counts_within (k + length (filter is_Update ops)) (run_ops m ops)"
  using assms
proof (induction ops arbitrary: k m)
  case Nil
  then show ?case by (simp add: run_ops_def)
next
  case (Cons op ops)
  show ?case
  proof (cases op)
    case (Get_probabilities ctx)
    have "counts_within k (apply_op m op)"
      using Cons.prems(1,2) Get_probabilities
      by (simp add: get_probabilities_snd counts_within_get_or_create)
    from Cons.IH [OF this] Cons.prems(2,3) Get_probabilities show ?thesis
      by (simp add: run_ops_def)
  next
    case (Update ctx i)
    have "counts_within (Suc k) (apply_op m op)"
      using Cons.prems Update by (simp add: counts_within_update)
    from Cons.IH [OF this] Cons.prems(2,3) Update show ?thesis
      by (simp add: run_ops_def)
  qed
qed

lemma counts_within_empty: "model m = Map.empty \<Longrightarrow> counts_within k m"
  by (simp add: counts_within_def)

lemma apply_op_keeps_rows:
  assumes "model m ctx = Some row"
  shows "\<exists>row'. model (apply_op m op) ctx = Some row' \<and> length row' = length row"
proof (cases op)
  case (Get_probabilities c)
  then show ?thesis
    using assms by (simp add: get_probabilities_snd get_or_create_context_other)
next
  case (Update c i)
  have "model (snd (get_or_create_context m c)) ctx = Some row"
    using assms by (rule get_or_create_context_other)
  moreover have "model (snd (get_or_create_context m c)) c = Some (fst (get_or_create_context m c))"
    by (rule get_or_create_context_fst)
  ultimately show ?thesis
    using Update by (auto simp: update_model Let_def)
qed

lemma table_append_only: "dom (model m) \<subseteq> dom (model (apply_op m op))"
  using apply_op_keeps_rows by blast

lemma apply_op_monotone:
  assumes "counts_within k m" "is_Update op \<longrightarrow> k < 2 ^ 32 - 1" "model m ctx = Some row"
    and "j < length row" "model (apply_op m op) ctx = Some row'"
  shows "row ! j \<le> row' ! j"
proof (cases op)
  case (Get_probabilities c)
  then show ?thesis
    using assms(3,5) get_or_create_context_other [OF assms(3), of c]
    by (simp add: get_probabilities_snd)
next
  case (Update c i)
  have keep: "model (snd (get_or_create_context m c)) ctx = Some row"
    using assms(3) by (rule get_or_create_context_other)
  have cur: "model (snd (get_or_create_context m c)) c = Some (fst (get_or_create_context m c))"
    by (rule get_or_create_context_fst)
  show ?thesis
  proof (cases "c = ctx \<and> i < length row")
    case True
    then have fst_row: "fst (get_or_create_context m c) = row"
      using keep cur by simp
    then have row': "row' = row[i := row ! i + 1]"
      using assms(5) Update True by (simp add: update_model Let_def)
    have "unat (row ! i) \<le> k"
      using assms(1,3) True by (auto simp: counts_within_def)
    then have "unat (row ! i + 1) = Suc (unat (row ! i))"
      using assms(2) Update by (intro unat_succ_bounded [of _ k]) auto
    then have "row ! i \<le> row ! i + 1"
      by (simp add: word_le_nat_alt)
    then show ?thesis
      using row' assms(4) by (cases "j = i") auto
  next
    case False
    then have "row' = row"
      using assms(5) Update keep cur by (auto simp: update_model Let_def split: if_splits)
    then show ?thesis by simp
  qed
qed

lemma run_ops_snoc: "run_ops m (ops @ [op]) = apply_op (run_ops m ops) op"
  by (simp add: run_ops_def)

text \<open>
  Claim C8, amended: the table is append-only, and as long as fewer than \<open>2^32 - 1\<close>
  updates have been issued, every count of every row is at least 1 and no operation
  decreases a count. Stated for any sequence \<open>ops\<close> of operations on a model that starts
  empty, and the operation \<open>op\<close> that follows it: the rows before \<open>op\<close> are still there
  after it, position by position no smaller, and all counts after it are at least 1.
\<close>

theorem counts_positive_and_monotone:
  assumes "model m0 = Map.empty"
    and "length (filter is_Update (ops @ [op])) < 2 ^ 32 - 1"
  shows "(\<forall>ctx row. model (run_ops m0 ops) ctx = Some row \<longrightarrow>
            (\<exists>row'. model (run_ops m0 (ops @ [op])) ctx = Some row' \<and> length row' = length row
                \<and> (\<forall>j < length row. row ! j \<le> row' ! j)))
       \<and> (\<forall>ctx row'. model (run_ops m0 (ops @ [op])) ctx = Some row' \<longrightarrow> (\<forall>c \<in> set row'. 1 \<le> c))"
proof -
  let ?m = "run_ops m0 ops"
  let ?n = "length (filter is_Update ops)"
  have n: "1 + ?n < 2 ^ 32" "is_Update op \<longrightarrow> 1 + ?n < 2 ^ 32 - 1"
    "1 + length (filter is_Update (ops @ [op])) < 2 ^ 32"
    using assms(2) by auto
  have w: "counts_within (1 + ?n) ?m"
    using counts_within_empty [OF assms(1)] n(1) by (intro counts_within_run_ops) auto
  have w': "counts_within (1 + length (filter is_Update (ops @ [op]))) (run_ops m0 (ops @ [op]))"
    using counts_within_empty [OF assms(1)] n(3) by (intro counts_within_run_ops) auto
  have mono: "\<exists>row'. model (run_ops m0 (ops @ [op])) ctx = Some row' \<and> length row' = length row
                \<and> (\<forall>j < length row. row ! j \<le> row' ! j)"
    if r: "model ?m ctx = Some row" for ctx row
  proof -
    obtain row' where row': "model (apply_op ?m op) ctx = Some row'" "length row' = length row"
      using apply_op_keeps_rows [OF r] by blast
    have "\<forall>j < length row. row ! j \<le> row' ! j"
      using apply_op_monotone [OF w n(2) r _ row'(1)] by blast
    with row' show ?thesis
      by (simp add: run_ops_snoc)
  qed
  have pos: "1 \<le> c" if "model (run_ops m0 (ops @ [op])) ctx = Some row'" "c \<in> set row'" for ctx row' c
  proof -
    have "1 \<le> unat c"
      using w' that by (auto simp: counts_within_def)
    then show ?thesis
      by (simp add: word_le_nat_alt)
  qed
  show ?thesis
    using mono pos by blast
qed

theorem counts_positive_and_monotone_witness:
  "model (ContextModel_init 10 4) = Map.empty
   \<and> length (filter is_Update ([Update ''NNNNNNNNNN'' 2] @ [Update ''NNNNNNNNNN'' 2])) < 2 ^ 32 - 1
   \<and> model (run_ops (ContextModel_init 10 4) [Update ''NNNNNNNNNN'' 2]) ''NNNNNNNNNN'' = Some [1, 1, 2, 1]
   \<and> model (run_ops (ContextModel_init 10 4) ([Update ''NNNNNNNNNN'' 2] @ [Update ''NNNNNNNNNN'' 2]))
         ''NNNNNNNNNN'' = Some [1, 1, 3, 1]"
proof -
  have "replicate 4 (1 :: u32) = [1, 1, 1, 1]"
    by (simp add: eval_nat_numeral)
  then show ?thesis
    using counts_positive_and_monotone [of "ContextModel_init 10 4"
        "[Update ''NNNNNNNNNN'' 2]" "Update ''NNNNNNNNNN'' 2"]
    by (simp add: run_ops_def update_model get_or_create_context_def ContextModel_init_def Let_def)
qed

lemma run_updates_existing:
  "model m ctx = Some row \<Longrightarrow> i < length row \<Longrightarrow>
   model (run_ops m (replicate n (Update ctx i))) ctx = Some (row[i := row ! i + of_nat n])"
proof (induction n arbitrary: m row)
  case 0
  then show ?case by (simp add: run_ops_def)
next
  case (Suc n)
  let ?row1 = "row[i := row ! i + 1]"
  have "fst (get_or_create_context m ctx) = row" "model (snd (get_or_create_context m ctx)) = model m"
    using Suc.prems(1) by (simp_all add: get_or_create_context_def)
  then have step: "model (apply_op m (Update ctx i)) ctx = Some ?row1"
    using Suc.prems by (simp add: update_model Let_def)
  have "model (run_ops (apply_op m (Update ctx i)) (replicate n (Update ctx i))) ctx
          = Some (?row1[i := ?row1 ! i + of_nat n])"
    using step Suc.prems(2) by (intro Suc.IH) auto
  then show ?case
    using Suc.prems(2) by (simp add: run_ops_def add.assoc)
qed

text \<open>
  Claim C8 as the spec states it (every count at least 1 at all times, no count ever
  decreases) fails on the \<^verbatim>\<open>uint32\<close> rows: the count of one symbol in one context is
  \<open>2^32 - 1\<close> after \<open>2^32 - 2\<close> updates and 0 after one more.
\<close>

theorem count_wraps_to_zero:
  "model (run_ops (ContextModel_init 10 4) (replicate 4294967294 (Update ''AAAAAAAAAA'' 0))) ''AAAAAAAAAA''
     = Some [4294967295, 1, 1, 1]
   \<and> model (run_ops (ContextModel_init 10 4) (replicate 4294967295 (Update ''AAAAAAAAAA'' 0))) ''AAAAAAAAAA''
     = Some [0, 1, 1, 1]"
proof -
  let ?u = "Update ''AAAAAAAAAA'' 0"
  let ?m1 = "apply_op (ContextModel_init 10 4) ?u"
  have "replicate 4 (1 :: u32) = [1, 1, 1, 1]"
    by (simp add: eval_nat_numeral)
  then have m1: "model ?m1 ''AAAAAAAAAA'' = Some [2, 1, 1, 1]"
    by (simp add: update_model get_or_create_context_def ContextModel_init_def Let_def)
  have unfold: "run_ops (ContextModel_init 10 4) (replicate (Suc n) ?u) = run_ops ?m1 (replicate n ?u)" for n
    by (simp add: run_ops_def)
  have a: "run_ops (ContextModel_init 10 4) (replicate 4294967294 ?u) = run_ops ?m1 (replicate 4294967293 ?u)"
    using unfold [of 4294967293] by simp
  have b: "run_ops (ContextModel_init 10 4) (replicate 4294967295 ?u) = run_ops ?m1 (replicate 4294967294 ?u)"
    using unfold [of 4294967294] by simp
  show ?thesis
    unfolding a b
    using run_updates_existing [OF m1, of 0 4294967293] run_updates_existing [OF m1, of 0 4294967294]
    by simp
qed

section \<open>The rendered text and the decode loop\<close>

declare slices70.simps [simp del]
declare words_of.simps [simp del]

lemma slices70_Nil: "slices70 [] = []"
  by (simp add: slices70.simps)

lemma slices70_nonempty: "s \<noteq> [] \<Longrightarrow> slices70 s = take 70 s # slices70 (drop 70 s)"
  by (subst slices70.simps) simp

lemma concat_slices70: "concat (slices70 s) = s"
proof (induction s rule: slices70.induct)
  case (1 s)
  then show ?case
    by (cases "s = []") (simp_all add: slices70_Nil slices70_nonempty)
qed

lemma length_slices70: "length (slices70 s) = (length s + 69) div 70"
proof (induction s rule: slices70.induct)
  case (1 s)
  show ?case
  proof (cases "s = []")
    case True
    then show ?thesis by (simp add: slices70_Nil)
  next
    case False
    then have step: "length (slices70 s) = Suc ((length s - 70 + 69) div 70)"
      using 1 by (simp add: slices70_nonempty)
    show ?thesis
    proof (cases "70 \<le> length s")
      case True
      then have "length s + 69 = (length s - 70 + 69) + 70"
        by simp
      then have "(length s + 69) div 70 = Suc ((length s - 70 + 69) div 70)"
        by (simp only: div_add_self2)
      with step show ?thesis by simp
    next
      case small: False
      have "Suc 0 \<le> length s"
        using False by (cases s) auto
      then have "(length s + 69) div 70 = 1"
        using small by (intro div_nat_eqI) auto
      with step small show ?thesis by simp
    qed
  qed
qed

lemma slices70_lengths: "l \<in> set (slices70 s) \<Longrightarrow> 1 \<le> length l \<and> length l \<le> 70"
proof (induction s rule: slices70.induct)
  case (1 s)
  show ?case
  proof (cases "s = []")
    case True
    with 1 show ?thesis by (simp add: slices70_Nil)
  next
    case False
    then have "l = take 70 s \<or> l \<in> set (slices70 (drop 70 s))"
      using 1(2) by (simp add: slices70_nonempty)
    then show ?thesis
    proof
      assume "l = take 70 s"
      then show ?thesis
        using False by (cases s) auto
    next
      assume "l \<in> set (slices70 (drop 70 s))"
      then show ?thesis
        using 1(1) False by simp
    qed
  qed
qed

lemma slices70_full_lines: "Suc i < length (slices70 s) \<Longrightarrow> length (slices70 s ! i) = 70"
proof (induction s arbitrary: i rule: slices70.induct)
  case (1 s)
  show ?case
  proof (cases "s = []")
    case True
    with 1 show ?thesis by (simp add: slices70_Nil)
  next
    case False
    then have eq: "slices70 s = take 70 s # slices70 (drop 70 s)"
      by (rule slices70_nonempty)
    show ?thesis
    proof (cases i)
      case 0
      then have "slices70 (drop 70 s) \<noteq> []"
        using 1(2) eq by auto
      then have "drop 70 s \<noteq> []"
        using slices70_Nil by auto
      then have "70 < length s"
        by simp
      then show ?thesis
        using eq 0 by simp
    next
      case (Suc j)
      then have "Suc j < length (slices70 (drop 70 s))"
        using 1(2) eq by simp
      then have "length (slices70 (drop 70 s) ! j) = 70"
        using 1(1) False by simp
      then show ?thesis
        using eq Suc by simp
    qed
  qed
qed

lemma slices70_last: "s \<noteq> [] \<Longrightarrow> 1 \<le> length (last (slices70 s)) \<and> length (last (slices70 s)) \<le> 70"
proof -
  assume "s \<noteq> []"
  then have "slices70 s \<noteq> []"
    by (simp add: slices70_nonempty)
  then have "last (slices70 s) \<in> set (slices70 s)"
    by (rule last_in_set)
  then show ?thesis
    by (rule slices70_lengths)
qed

lemma decode_loop_output:
  "decode_loop C n m q d out = Inr (m', q', d', out') \<Longrightarrow>
   \<exists>s. out' = out @ s \<and> length s = n \<and> set s \<subseteq> set DNA_ALPHABET"
proof (induction n arbitrary: m q d out)
  case 0
  then show ?case by simp
next
  case (Suc n)
  obtain probs m1 where gp: "get_probabilities m q = (probs, m1)"
    by (cases "get_probabilities m q")
  from Suc.prems gp obtain i d1 where dec: "decode C probs d = Inr (i, d1)"
    by (auto split: sum.splits)
  from Suc.prems gp dec obtain m2 where up: "update m1 q i = (Inr (), m2)"
    by (auto split: sum.splits prod.splits)
  from Suc.prems gp dec up obtain base where b: "INDEX_TO_BASE i = Some base"
    by (auto split: option.splits)
  from Suc.prems gp dec up b
  have "decode_loop C n m2 (deque_append CONTEXT_LENGTH q base) d1 (out @ [base]) = Inr (m', q', d', out')"
    by simp
  from Suc.IH [OF this] obtain s where s: "out' = (out @ [base]) @ s" "length s = n" "set s \<subseteq> set DNA_ALPHABET"
    by blast
  have "base \<in> set DNA_ALPHABET"
    using b by (auto simp: INDEX_TO_BASE_eq DNA_ALPHABET_def split: if_splits)
  with s show ?case
    by (intro exI [of _ "base # s"]) simp
qed

section \<open>Running the model on concrete inputs\<close>

lemma read_cg_container:
  "read_container cg_container =
     \<lparr>c_seq_len = 2, c_header_len = 2, c_header_bytes = ''>h'',
      c_rest = [CHR 0x01, CHR 0x00, CHR 0x00, CHR 0x00, CHR 0x02, CHR 0x00, CHR 0x00, CHR 0x00]\<rparr>"
  by (simp add: read_container_def cg_container_def from_bytes_big_def Let_def)

lemma words_cg: "frombuffer Little [CHR 0x01, CHR 0x00, CHR 0x00, CHR 0x00, CHR 0x02, CHR 0x00, CHR 0x00, CHR 0x00] = Inr [1, 2]"
  by (simp add: frombuffer_def words_of.simps bytes_word_def)

lemma decode_loop_numeral:
  "decode_loop C (numeral k) m q d out = decode_loop C (Suc (pred_numeral k)) m q d out"
  by (simp add: numeral_eq_Suc)

lemma list_update_numeral: "(x # xs)[numeral k := y] = x # xs[pred_numeral k := y]"
  by (simp add: numeral_eq_Suc)

lemma replicate_numeral: "replicate (numeral k) x = x # replicate (pred_numeral k) x"
  by (simp add: numeral_eq_Suc)

lemma stack_coder_simps:
  "AnsCoder_empty stack_coder = []"
  "AnsCoder_of stack_coder ws = Inr ws"
  "encode_reverse stack_coder i probs st = Inr (of_nat i # st)"
  "get_compressed stack_coder st = st"
  "decode stack_coder probs [] = Inr (0, [])"
  "decode stack_coder probs (w # ws) = Inr (unat w, ws)"
  by (simp_all add: stack_coder_def)

lemmas model_eval = get_probabilities_def update_def get_or_create_context_def
  ContextModel_init_def CONTEXT_LENGTH_def DNA_ALPHABET_def initial_queue_def deque_append_def
  Let_def list_update_numeral replicate_numeral

lemma loop_cg:
  "decode_loop stack_coder 2 (ContextModel_init CONTEXT_LENGTH (length DNA_ALPHABET)) initial_queue [1, 2] []
   = Inr (\<lparr>context_length = 10, alphabet_size = 4,
            model = [''NNNNNNNNNN'' \<mapsto> [1, 2, 1, 1], ''NNNNNNNNNC'' \<mapsto> [1, 1, 2, 1]]\<rparr>, ''NNNNNNNNCG'', [], ''CG'')"
  by (simp add: decode_loop_numeral stack_coder_simps model_eval INDEX_TO_BASE_eq)

lemma run_cg:
  "decompress_file stack_coder Little [''cg.bin'' \<mapsto> File cg_container] ''cg.bin'' ''cg.fa'' =
     (Inr (), [''cg.bin'' \<mapsto> File cg_container, ''cg.fa'' \<mapsto> File ''>h\<newline>CG\<newline>''])"
  by (simp add: decompress_file_def open_read_def read_cg_container decode_utf8_def in_range_def
      words_cg loop_cg open_write_def render_def slices70.simps stack_coder_simps)

section \<open>The output of decompress\_file\<close>

text \<open>
  Claim C9: a decompression of a container with sequence length \<open>n > 0\<close> that succeeds
  writes the header, a newline, and the \<open>n\<close> decoded bases cut into slices of 70, each
  followed by a newline: \<open>(n + 69) div 70\<close> lines, that is \<open>ceil (n / 70)\<close>, all but the last
  of exactly 70 characters and the last of 1 to 70. The slices concatenate to the sequence,
  and the bases are letters of the alphabet, so no line holds a newline of its own.
\<close>

theorem decompressed_text_layout:
  assumes "files input_path = Some (File content)"
    and "0 < c_seq_len (read_container content)"
    and "decompress_file C bo files input_path output_path = (Inr (), files')"
  shows "\<exists>header s.
           decode_utf8 (c_header_bytes (read_container content)) = Inr header
         \<and> length s = c_seq_len (read_container content)
         \<and> set s \<subseteq> set DNA_ALPHABET
         \<and> files' = files(output_path \<mapsto>
              File (header @ [CHR 0x0A] @ concat (map (\<lambda>l. l @ [CHR 0x0A]) (slices70 s))))
         \<and> concat (slices70 s) = s
         \<and> length (slices70 s) = (length s + 69) div 70
         \<and> (\<forall>i. Suc i < length (slices70 s) \<longrightarrow> length (slices70 s ! i) = 70)
         \<and> 1 \<le> length (last (slices70 s)) \<and> length (last (slices70 s)) \<le> 70"
proof -
  let ?c = "read_container content"
  have rd: "open_read files input_path = Inr content"
    using assms(1) by (simp add: open_read_def)
  note run = assms(3) [unfolded decompress_file_def rd, simplified]
  from run obtain header where h: "decode_utf8 (c_header_bytes ?c) = Inr header"
    by (cases "decode_utf8 (c_header_bytes ?c)") (auto simp: Let_def)
  from run h obtain ws where ws: "frombuffer bo (c_rest ?c) = Inr ws"
    by (cases "frombuffer bo (c_rest ?c)") (auto simp: Let_def)
  from run h ws assms(2) obtain d where d: "AnsCoder_of C ws = Inr d"
    by (cases "AnsCoder_of C ws") (auto simp: Let_def)
  let ?loop = "decode_loop C (c_seq_len ?c) (ContextModel_init CONTEXT_LENGTH (length DNA_ALPHABET))
                 initial_queue d []"
  from run h ws assms(2) d obtain m q d' s where l: "?loop = Inr (m, q, d', s)"
    by (cases ?loop) (auto simp: Let_def)
  from run h ws assms(2) d l have out: "files' = files(output_path \<mapsto> File (render header s))"
    by (cases "open_write files output_path") (auto simp: Let_def)
  from decode_loop_output [OF l] have s: "length s = c_seq_len ?c" "set s \<subseteq> set DNA_ALPHABET"
    by auto
  then have "s \<noteq> []"
    using assms(2) by auto
  then have "1 \<le> length (last (slices70 s)) \<and> length (last (slices70 s)) \<le> 70"
    by (rule slices70_last)
  with h s out show ?thesis
    by (intro exI [of _ header] exI [of _ s])
      (simp add: render_def concat_slices70 length_slices70 slices70_full_lines)
qed

theorem decompressed_text_layout_witness:
  "c_seq_len (read_container cg_container) = 2
   \<and> decompress_file stack_coder Little [''cg.bin'' \<mapsto> File cg_container] ''cg.bin'' ''cg.fa'' =
       (Inr (), [''cg.bin'' \<mapsto> File cg_container, ''cg.fa'' \<mapsto> File ''>h\<newline>CG\<newline>''])
   \<and> slices70 ''CG'' = [''CG'']"
  using decompressed_text_layout [of "[''cg.bin'' \<mapsto> File cg_container]" "''cg.bin''" cg_container
      stack_coder Little "''cg.fa''"
      "[''cg.bin'' \<mapsto> File cg_container, ''cg.fa'' \<mapsto> File ''>h\<newline>CG\<newline>'']"]
    run_cg read_cg_container
  by (simp add: slices70.simps)

section \<open>Context symmetry\<close>

text \<open>
  Claim C2: whatever coder delivers the symbols, when the decode loop has run \<open>t\<close>
  iterations and decoded the bases \<open>s\<close>, pass 1 of \<^verbatim>\<open>compress_file\<close> run on these \<open>t\<close>
  bases from the same start ends with the same context model: the same keys and the
  same rows (and the same context queue).
\<close>

theorem context_symmetry:
  assumes "decode_loop C t m q d out = Inr (m_dec, q_dec, d', decoded)"
  shows "\<exists>s states m_enc. decoded = out @ s \<and> length s = t
           \<and> pass1 m q s = Inr (states, m_enc, q_dec)
           \<and> model m_enc = model m_dec \<and> m_enc = m_dec"
  using assms
proof (induction t arbitrary: m q d out)
  case 0
  then show ?case by simp
next
  case (Suc n)
  obtain probs m1 where gp: "get_probabilities m q = (probs, m1)"
    by (cases "get_probabilities m q")
  from Suc.prems gp obtain i d1 where dec: "decode C probs d = Inr (i, d1)"
    by (auto split: sum.splits)
  from Suc.prems gp dec obtain m2 where up: "update m1 q i = (Inr (), m2)"
    by (auto split: sum.splits prod.splits)
  from Suc.prems gp dec up obtain base where b: "INDEX_TO_BASE i = Some base"
    by (auto split: option.splits)
  from Suc.prems gp dec up b
  have "decode_loop C n m2 (deque_append CONTEXT_LENGTH q base) d1 (out @ [base])
          = Inr (m_dec, q_dec, d', decoded)"
    by simp
  from Suc.IH [OF this] obtain s states m_enc where
    s: "decoded = (out @ [base]) @ s" "length s = n"
      "pass1 m2 (deque_append CONTEXT_LENGTH q base) s = Inr (states, m_enc, q_dec)" "m_enc = m_dec"
    by blast
  have "BASE_TO_INDEX base = Some i"
    using b by (rule BASE_TO_INDEX_inverse)
  then have "pass1 m q (base # s) = Inr ((i, probs) # states, m_enc, q_dec)"
    using gp up s(3) by simp
  with s show ?case
    by (intro exI [of _ "base # s"]) simp
qed

theorem context_symmetry_witness:
  "decode_loop stack_coder 2 (ContextModel_init CONTEXT_LENGTH (length DNA_ALPHABET)) initial_queue [1, 2] []
   = Inr (\<lparr>context_length = 10, alphabet_size = 4,
            model = [''NNNNNNNNNN'' \<mapsto> [1, 2, 1, 1], ''NNNNNNNNNC'' \<mapsto> [1, 1, 2, 1]]\<rparr>, ''NNNNNNNNCG'', [], ''CG'')
   \<and> pass1 (ContextModel_init CONTEXT_LENGTH (length DNA_ALPHABET)) initial_queue ''CG''
   = Inr ([(1, [1/4, 1/4, 1/4, 1/4]), (2, [1/4, 1/4, 1/4, 1/4])],
          \<lparr>context_length = 10, alphabet_size = 4,
            model = [''NNNNNNNNNN'' \<mapsto> [1, 2, 1, 1], ''NNNNNNNNNC'' \<mapsto> [1, 1, 2, 1]]\<rparr>, ''NNNNNNNNCG'')"
  using context_symmetry [OF loop_cg] loop_cg
  by (simp add: model_eval BASE_TO_INDEX_eq)

section \<open>Bytes and the container\<close>

lemma char_of_eq_iff: "char_of (n :: nat) = c \<longleftrightarrow> n mod 256 = of_char c"
proof
  assume "char_of n = c"
  then have "of_char (char_of n) = (of_char c :: nat)"
    by simp
  then show "n mod 256 = of_char c"
    by simp
next
  assume "n mod 256 = of_char c"
  then have "char_of (n mod 256) = char_of (of_char c :: nat)"
    by simp
  then show "char_of n = c"
    by simp
qed

lemma length_to_le: "length (to_le k n) = k"
  by (induction k arbitrary: n) auto

lemma from_le_to_le: "n < 256 ^ k \<Longrightarrow> from_le (to_le k n) = n"
proof (induction k arbitrary: n)
  case 0
  then show ?case by simp
next
  case (Suc k)
  then have "n div 256 < 256 ^ k"
    by (simp add: less_mult_imp_div_less mult.commute)
  then have "from_le (to_le k (n div 256)) = n div 256"
    by (rule Suc.IH)
  then show ?case
    by simp
qed

lemma to_bytes_big_Inr:
  "to_bytes_big n k = Inr b \<longleftrightarrow> n < 256 ^ k \<and> b = rev (to_le k n)"
  by (auto simp: to_bytes_big_def)

lemma to_bytes_big_fields:
  "to_bytes_big n k = Inr b \<Longrightarrow> length b = k \<and> from_bytes_big b = n"
  by (auto simp: to_bytes_big_Inr from_bytes_big_def length_to_le from_le_to_le)

lemma bytes_word_word_bytes: "bytes_word bo (word_bytes bo w) = w"
proof -
  have "unat w < 256 ^ 4"
    using unsigned_less [of w, where ?'a = nat] by simp
  then have "from_le (to_le 4 (unat w)) = unat w"
    by (rule from_le_to_le)
  then show ?thesis
    by (cases bo) (simp_all add: bytes_word_def word_bytes_def)
qed

lemma length_word_bytes: "length (word_bytes bo w) = 4"
  by (cases bo) (simp_all add: word_bytes_def length_to_le)

lemma length_tobytes: "length (tobytes bo ws) = 4 * length ws"
  by (induction ws) (simp_all add: tobytes_def length_word_bytes)

lemma words_of_tobytes: "words_of bo (tobytes bo ws) = ws"
proof (induction ws)
  case Nil
  then show ?case by (simp add: tobytes_def words_of.simps)
next
  case (Cons w ws)
  have "tobytes bo (w # ws) = word_bytes bo w @ tobytes bo ws"
    by (simp add: tobytes_def)
  then show ?case
    using Cons by (subst words_of.simps) (simp add: length_word_bytes bytes_word_word_bytes)
qed

lemma frombuffer_tobytes: "frombuffer bo (tobytes bo ws) = Inr ws"
  by (simp add: frombuffer_def length_tobytes words_of_tobytes)

lemma to_le_numeral:
  "to_le (numeral k) n = char_of (n mod 256) # to_le (pred_numeral k) (n div 256)"
proof -
  have "to_le (Suc (pred_numeral k)) n = char_of (n mod 256) # to_le (pred_numeral k) (n div 256)"
    by simp
  then show ?thesis
    by (simp only: numeral_eq_Suc)
qed

lemma word_bytes_explicit:
  "word_bytes Little w = [char_of (unat w), char_of (unat w div 256),
                          char_of (unat w div 256 div 256), char_of (unat w div 256 div 256 div 256)]"
  "word_bytes Big w = [char_of (unat w div 256 div 256 div 256), char_of (unat w div 256 div 256),
                       char_of (unat w div 256), char_of (unat w)]"
  by (simp_all add: word_bytes_def to_le_numeral)

lemma write_container_Inr:
  assumes "write_container bo n header ws = (Inr (), data)"
  shows "\<exists>b8 b2. to_bytes_big n 8 = Inr b8 \<and> to_bytes_big (length header) 2 = Inr b2
           \<and> data = b8 @ b2 @ header @ tobytes bo ws"
  using assms by (auto simp: write_container_def split: sum.splits)

lemma write_container_ok:
  assumes "n < 2 ^ 64" "length header \<le> 65535"
  shows "write_container bo n header ws =
           (Inr (), rev (to_le 8 n) @ rev (to_le 2 (length header)) @ header @ tobytes bo ws)"
  using assms by (simp add: write_container_def to_bytes_big_def)

lemma read_container_written:
  assumes "to_bytes_big n 8 = Inr b8" "to_bytes_big (length header) 2 = Inr b2"
  shows "read_container (b8 @ b2 @ header @ rest) =
           \<lparr>c_seq_len = n, c_header_len = length header, c_header_bytes = header, c_rest = rest\<rparr>"
  using to_bytes_big_fields [OF assms(1)] to_bytes_big_fields [OF assms(2)]
  by (simp add: read_container_def Let_def)

lemma compress_file_nonempty:
  assumes "files input_path = Some (File content)"
    and "collect [] [] (fasta_events content) = (header, sequence)"
    and "sequence \<noteq> []"
  shows "compress_file C bo files input_path output_path =
     (case pass1 (ContextModel_init CONTEXT_LENGTH (length DNA_ALPHABET)) initial_queue sequence of
        Inl e \<Rightarrow> (Inl e, files)
      | Inr (states_to_encode, _, _) \<Rightarrow>
          (case pass2 C states_to_encode of
             Inl e \<Rightarrow> (Inl e, files)
           | Inr compressed_data \<Rightarrow>
               (case open_write files output_path of
                  Inl e \<Rightarrow> (Inl e, files)
                | Inr _ \<Rightarrow>
                    (fst (write_container bo (length sequence) header compressed_data),
                     files(output_path \<mapsto>
                       File (snd (write_container bo (length sequence) header compressed_data)))))))"
  using assms
  by (simp add: compress_file_def read_fasta_sequence_and_header_def open_read_def Let_def
      split: sum.splits prod.splits)

section \<open>compress\_file on a concrete input\<close>

lemma in_dom_BASE_TO_INDEX: "c \<in> dom BASE_TO_INDEX \<longleftrightarrow> c \<in> set ''ACGT''"
  by (auto simp: dom_def BASE_TO_INDEX_eq)

lemmas reader_eval = fasta_events_def file_lines_def startswith_gt_def strip_def is_space_def
  upper_def upper_char_def in_dom_BASE_TO_INDEX

lemmas bytes_eval = write_container_def to_bytes_big_def tobytes_def word_bytes_def to_le_numeral
  char_of_eq_iff

lemma events_cg: "collect [] [] (fasta_events ''>h\<newline>CG\<newline>'') = (''>h'', ''CG'')"
  by (simp add: reader_eval)

lemma pass1_cg:
  "pass1 (ContextModel_init CONTEXT_LENGTH (length DNA_ALPHABET)) initial_queue ''CG''
   = Inr ([(1, [1/4, 1/4, 1/4, 1/4]), (2, [1/4, 1/4, 1/4, 1/4])],
          \<lparr>context_length = 10, alphabet_size = 4,
            model = [''NNNNNNNNNN'' \<mapsto> [1, 2, 1, 1], ''NNNNNNNNNC'' \<mapsto> [1, 1, 2, 1]]\<rparr>, ''NNNNNNNNCG'')"
  by (simp add: model_eval BASE_TO_INDEX_eq)

lemma pass2_cg:
  "pass2 stack_coder [(1, [1/4, 1/4, 1/4, 1/4]), (2, [1/4, 1/4, 1/4, 1/4])] = Inr [1, 2]"
  by (simp add: pass2_def stack_coder_simps)

lemma write_cg: "write_container Little (Suc (Suc 0)) ''>h'' [1, 2] = (Inr (), cg_container)"
  by (simp add: bytes_eval cg_container_def)

lemma write_cg_big:
  "write_container Big (Suc (Suc 0)) ''>h'' [1, 2] =
     (Inr (), [CHR 0x00, CHR 0x00, CHR 0x00, CHR 0x00, CHR 0x00, CHR 0x00, CHR 0x00, CHR 0x02,
               CHR 0x00, CHR 0x02, CHR ''>'', CHR ''h'',
               CHR 0x00, CHR 0x00, CHR 0x00, CHR 0x01, CHR 0x00, CHR 0x00, CHR 0x00, CHR 0x02])"
  by (simp add: bytes_eval)

lemma compress_cg:
  "compress_file stack_coder Little [''cg.fa'' \<mapsto> File ''>h\<newline>CG\<newline>''] ''cg.fa'' ''cg.bin'' =
     (Inr (), [''cg.fa'' \<mapsto> File ''>h\<newline>CG\<newline>'', ''cg.bin'' \<mapsto> File cg_container])"
  by (simp add: compress_file_nonempty [of _ _ "''>h\<newline>CG\<newline>''" "''>h''" "''CG''"] events_cg pass1_cg
      pass2_def stack_coder_simps open_write_def write_cg del: pass1.simps)

lemma compress_cg_big:
  "compress_file stack_coder Big [''cg.fa'' \<mapsto> File ''>h\<newline>CG\<newline>''] ''cg.fa'' ''cg.bin'' =
     (Inr (), [''cg.fa'' \<mapsto> File ''>h\<newline>CG\<newline>'',
               ''cg.bin'' \<mapsto> File [CHR 0x00, CHR 0x00, CHR 0x00, CHR 0x00, CHR 0x00, CHR 0x00, CHR 0x00, CHR 0x02,
                   CHR 0x00, CHR 0x02, CHR ''>'', CHR ''h'',
                   CHR 0x00, CHR 0x00, CHR 0x00, CHR 0x01, CHR 0x00, CHR 0x00, CHR 0x00, CHR 0x02]])"
  by (simp add: compress_file_nonempty [of _ _ "''>h\<newline>CG\<newline>''" "''>h''" "''CG''"] events_cg pass1_cg
      pass2_def stack_coder_simps open_write_def write_cg_big del: pass1.simps)

section \<open>The layout of the container\<close>

text \<open>
  Claim C4 as the spec states it: every fixed-width field, the code words included, is
  big-endian. The length fields are, but the code words are written by
  \<^verbatim>\<open>ndarray.tobytes()\<close> in the byte order of the host: on a little-endian host the block
  that writes the file puts the code word 4 as \<^verbatim>\<open>04 00 00 00\<close>, where
  \<^verbatim>\<open>(4).to_bytes(4, 'big')\<close> is \<^verbatim>\<open>00 00 00 04\<close>.
\<close>

theorem code_words_in_host_byte_order:
  "write_container Little 1 ''>h'' [4] =
     (Inr (), [CHR 0x00, CHR 0x00, CHR 0x00, CHR 0x00, CHR 0x00, CHR 0x00, CHR 0x00, CHR 0x01,
               CHR 0x00, CHR 0x02, CHR ''>'', CHR ''h'',
               CHR 0x04, CHR 0x00, CHR 0x00, CHR 0x00])
   \<and> to_bytes_big 4 4 = Inr [CHR 0x00, CHR 0x00, CHR 0x00, CHR 0x04]"
  by (simp add: write_container_def to_bytes_big_def tobytes_def word_bytes_def to_le_numeral
      char_of_eq_iff)

text \<open>
  Claim C4, amended: a compression of an ASCII input file with a non-empty sequence that
  succeeds writes, in order, the sequence length as 8 bytes big-endian, the number \<open>N\<close>
  of header bytes as 2 bytes big-endian, the \<open>N\<close> header bytes, and then every code word
  as 4 bytes in the byte order of the host, the same for all words: least significant
  byte first on a little-endian host, most significant first on a big-endian one. The
  parse at the head of \<^verbatim>\<open>decompress_file\<close> finds these fields again, and
  \<^verbatim>\<open>np.frombuffer\<close> in the same host order returns the code words that were written.
\<close>

theorem container_layout:
  assumes "files input_path = Some (File content)"
    and "collect [] [] (fasta_events content) = (header, sequence)"
    and "sequence \<noteq> []"
    and "compress_file C bo files input_path output_path = (Inr (), files')"
    and "ascii content"
  shows "\<exists>states m q compressed_data b8 b2 data.
           pass1 (ContextModel_init CONTEXT_LENGTH (length DNA_ALPHABET)) initial_queue sequence
             = Inr (states, m, q)
         \<and> pass2 C states = Inr compressed_data
         \<and> data = b8 @ b2 @ header @ concat (map (word_bytes bo) compressed_data)
         \<and> files' = files(output_path \<mapsto> File data)
         \<and> length b8 = 8 \<and> from_bytes_big b8 = length sequence
         \<and> length b2 = 2 \<and> from_bytes_big b2 = length header
         \<and> read_container data =
               \<lparr>c_seq_len = length sequence, c_header_len = length header,
                c_header_bytes = header,
                c_rest = concat (map (word_bytes bo) compressed_data)\<rparr>
         \<and> frombuffer bo (concat (map (word_bytes bo) compressed_data)) = Inr compressed_data
         \<and> (\<forall>w \<in> set compressed_data. word_bytes bo w =
               (case bo of
                  Little \<Rightarrow> [char_of (unat w), char_of (unat w div 256),
                              char_of (unat w div 256 div 256), char_of (unat w div 256 div 256 div 256)]
                | Big \<Rightarrow> [char_of (unat w div 256 div 256 div 256), char_of (unat w div 256 div 256),
                           char_of (unat w div 256), char_of (unat w)]))"
proof -
  let ?p1 = "pass1 (ContextModel_init CONTEXT_LENGTH (length DNA_ALPHABET)) initial_queue sequence"
  note run = assms(4) [unfolded compress_file_nonempty
      [of files input_path content header sequence C bo output_path, OF assms(1,2,3)]]
  from run obtain states m q where p1: "?p1 = Inr (states, m, q)"
    by (cases ?p1) auto
  from run p1 obtain ws where p2: "pass2 C states = Inr ws"
    by (cases "pass2 C states") auto
  from run p1 p2 have ow: "open_write files output_path = Inr ()"
    by (cases "open_write files output_path") auto
  from run p1 p2 ow obtain data where
    wc: "write_container bo (length sequence) header ws = (Inr (), data)"
    and out: "files' = files(output_path \<mapsto> File data)"
    by (cases "write_container bo (length sequence) header ws") auto
  from write_container_Inr [OF wc] obtain b8 b2 where
    b: "to_bytes_big (length sequence) 8 = Inr b8" "to_bytes_big (length header) 2 = Inr b2"
      "data = b8 @ b2 @ header @ tobytes bo ws"
    by blast
  have "\<forall>w \<in> set ws. word_bytes bo w =
               (case bo of
                  Little \<Rightarrow> [char_of (unat w), char_of (unat w div 256),
                              char_of (unat w div 256 div 256), char_of (unat w div 256 div 256 div 256)]
                | Big \<Rightarrow> [char_of (unat w div 256 div 256 div 256), char_of (unat w div 256 div 256),
                           char_of (unat w div 256), char_of (unat w)])"
    by (cases bo) (simp_all add: word_bytes_explicit)
  moreover have "read_container data =
      \<lparr>c_seq_len = length sequence, c_header_len = length header, c_header_bytes = header,
       c_rest = tobytes bo ws\<rparr>"
    unfolding b(3) using b(1,2) by (rule read_container_written)
  moreover have "frombuffer bo (tobytes bo ws) = Inr ws"
    by (rule frombuffer_tobytes)
  ultimately show ?thesis
    using p1 p2 out b to_bytes_big_fields [OF b(1)] to_bytes_big_fields [OF b(2)]
    by (intro exI [of _ states] exI [of _ m] exI [of _ q] exI [of _ ws] exI [of _ b8] exI [of _ b2]
        exI [of _ data])
      (simp add: tobytes_def)
qed

theorem container_layout_witness:
  "collect [] [] (fasta_events ''>h\<newline>CG\<newline>'') = (''>h'', ''CG'')
   \<and> ascii ''>h\<newline>CG\<newline>''
   \<and> compress_file stack_coder Big [''cg.fa'' \<mapsto> File ''>h\<newline>CG\<newline>''] ''cg.fa'' ''cg.bin'' =
     (Inr (), [''cg.fa'' \<mapsto> File ''>h\<newline>CG\<newline>'',
               ''cg.bin'' \<mapsto> File [CHR 0x00, CHR 0x00, CHR 0x00, CHR 0x00, CHR 0x00, CHR 0x00, CHR 0x00, CHR 0x02,
                   CHR 0x00, CHR 0x02, CHR ''>'', CHR ''h'',
                   CHR 0x00, CHR 0x00, CHR 0x00, CHR 0x01, CHR 0x00, CHR 0x00, CHR 0x00, CHR 0x02]])"
  using container_layout [of "[''cg.fa'' \<mapsto> File ''>h\<newline>CG\<newline>'']" "''cg.fa''" "''>h\<newline>CG\<newline>''"
      "''>h''" "''CG''" stack_coder Big "''cg.bin''", OF _ events_cg _ compress_cg_big]
    events_cg compress_cg_big
  by (simp add: ascii_def)

section \<open>The output is written last\<close>

text \<open>
  Claim C10: \<^verbatim>\<open>compress_file\<close> touches the file system only after reading has
  completed and, for a non-empty sequence, after pass 1 and pass 2 have both completed.
  Stated as: if the file system after the call differs from the one before, the input
  was read, and when its sequence is not empty pass 1 returned its states and pass 2
  returned the code words. So a failure while reading, modelling or encoding leaves
  every path as it was.
\<close>

theorem output_written_after_both_passes:
  assumes "compress_file C bo files input_path output_path = (r, files')"
    and "files' \<noteq> files"
  shows "\<exists>content header sequence.
           files input_path = Some (File content)
         \<and> collect [] [] (fasta_events content) = (header, sequence)
         \<and> (sequence \<noteq> [] \<longrightarrow>
              (\<exists>states m q compressed_data.
                 pass1 (ContextModel_init CONTEXT_LENGTH (length DNA_ALPHABET)) initial_queue sequence
                   = Inr (states, m, q)
               \<and> pass2 C states = Inr compressed_data))"
proof -
  from assms obtain content where c: "files input_path = Some (File content)"
    by (auto simp: compress_file_def read_fasta_sequence_and_header_def open_read_def
        split: option.splits node.splits)
  obtain header sequence where hs: "collect [] [] (fasta_events content) = (header, sequence)"
    by (cases "collect [] [] (fasta_events content)")
  have "\<exists>states m q compressed_data.
          pass1 (ContextModel_init CONTEXT_LENGTH (length DNA_ALPHABET)) initial_queue sequence
            = Inr (states, m, q)
        \<and> pass2 C states = Inr compressed_data" if ne: "sequence \<noteq> []"
  proof -
    let ?p1 = "pass1 (ContextModel_init CONTEXT_LENGTH (length DNA_ALPHABET)) initial_queue sequence"
    note run = assms(1) [unfolded compress_file_nonempty
        [of files input_path content header sequence C bo output_path, OF c hs ne]]
    from run assms(2) obtain states m q where p1: "?p1 = Inr (states, m, q)"
      by (cases ?p1) auto
    from run assms(2) p1 obtain ws where "pass2 C states = Inr ws"
      by (cases "pass2 C states") auto
    with p1 show ?thesis by blast
  qed
  with c hs show ?thesis by blast
qed

theorem output_written_after_both_passes_witness:
  "compress_file stack_coder Little [''cg.fa'' \<mapsto> File ''>h\<newline>CG\<newline>''] ''cg.fa'' ''cg.bin'' =
     (Inr (), [''cg.fa'' \<mapsto> File ''>h\<newline>CG\<newline>'', ''cg.bin'' \<mapsto> File cg_container])
   \<and> [''cg.fa'' \<mapsto> File ''>h\<newline>CG\<newline>'', ''cg.bin'' \<mapsto> File cg_container]
       \<noteq> [''cg.fa'' \<mapsto> File ''>h\<newline>CG\<newline>'']
   \<and> pass2 stack_coder [(1, [1/4, 1/4, 1/4, 1/4]), (2, [1/4, 1/4, 1/4, 1/4])] = Inr [1, 2]"
proof -
  have ne: "[''cg.fa'' \<mapsto> File ''>h\<newline>CG\<newline>'', ''cg.bin'' \<mapsto> File cg_container]
       \<noteq> [''cg.fa'' \<mapsto> File ''>h\<newline>CG\<newline>'']"
    by (auto dest!: fun_cong [of _ _ "''cg.bin''"])
  from output_written_after_both_passes [OF compress_cg ne] compress_cg ne pass2_cg
  show ?thesis
    by simp
qed

section \<open>Pass 1, pass 2 and the decode loop\<close>

lemma rows_sized_get_or_create:
  "rows_sized m \<Longrightarrow> rows_sized (snd (get_or_create_context m ctx))"
  by (auto simp: rows_sized_def get_or_create_context_def Let_def split: option.splits if_splits)

lemma table_ok_get_or_create:
  "table_ok k m \<Longrightarrow> 1 \<le> k \<Longrightarrow> table_ok k (snd (get_or_create_context m ctx))"
  by (simp add: table_ok_def rows_sized_get_or_create counts_within_get_or_create
      get_or_create_context_fields)

lemma update_alphabet_size: "alphabet_size (snd (update m ctx i)) = alphabet_size m"
  by (simp add: update_def get_or_create_context_def Let_def split: option.splits prod.splits)

lemma rows_sized_update: "rows_sized m \<Longrightarrow> rows_sized (snd (update m ctx i))"
proof -
  assume a: "rows_sized m"
  have b: "rows_sized (snd (get_or_create_context m ctx))"
    using a by (rule rows_sized_get_or_create)
  have c: "model (snd (get_or_create_context m ctx)) ctx = Some (fst (get_or_create_context m ctx))"
    by (rule get_or_create_context_fst)
  show ?thesis
    using b c
    by (auto simp: rows_sized_def update_model update_alphabet_size get_or_create_context_fields
        Let_def split: if_splits)
qed

lemma table_ok_update:
  "table_ok k m \<Longrightarrow> 1 \<le> k \<Longrightarrow> k < 2 ^ 32 - 1 \<Longrightarrow> table_ok (Suc k) (snd (update m ctx i))"
  by (simp add: table_ok_def rows_sized_update counts_within_update update_alphabet_size)

lemma table_ok_init: "table_ok k (ContextModel_init cl (length DNA_ALPHABET))"
  by (simp add: table_ok_def rows_sized_def counts_within_def ContextModel_init_def)

lemma get_probabilities_eq:
  "get_probabilities m ctx =
     (map (\<lambda>c. of_nat (unat c) / of_nat (sum_list (map unat (fst (get_or_create_context m ctx)))))
        (fst (get_or_create_context m ctx)),
      snd (get_or_create_context m ctx))"
  by (simp add: get_probabilities_def Let_def split: prod.splits)

lemma get_probabilities_valid:
  assumes "table_ok k m" "1 \<le> k" "get_probabilities m ctx = (probs, m1)" "i < length DNA_ALPHABET"
  shows "valid_pair (i, probs)"
proof -
  let ?counts = "fst (get_or_create_context m ctx)"
  let ?m1 = "snd (get_or_create_context m ctx)"
  have ok1: "table_ok k ?m1"
    using assms(1,2) by (rule table_ok_get_or_create)
  have row: "model ?m1 ctx = Some ?counts"
    by (rule get_or_create_context_fst)
  have len: "length ?counts = length DNA_ALPHABET"
    using ok1 row
    by (auto simp: table_ok_def rows_sized_def)
  have pos: "\<forall>c \<in> set ?counts. 1 \<le> unat c"
    using ok1 row by (auto simp: table_ok_def counts_within_def)
  have probs: "probs = map (\<lambda>c. of_nat (unat c) / of_nat (sum_list (map unat ?counts))) ?counts"
    using assms(3) by (simp add: get_probabilities_eq)
  have "0 < (of_nat (unat c) :: rat) / of_nat (sum_list (map unat ?counts))" if "c \<in> set ?counts" for c
  proof -
    have "0 < unat c"
      using pos that by (simp add: Suc_le_eq)
    moreover have "unat c \<le> sum_list (map unat ?counts)"
      using that member_le_sum_list [of "unat c" "map unat ?counts"] by simp
    ultimately have "0 < sum_list (map unat ?counts)"
      by simp
    then have "(0 :: rat) < of_nat (sum_list (map unat ?counts))"
      by (simp only: of_nat_0_less_iff)
    moreover have "(0 :: rat) < of_nat (unat c)"
      using \<open>0 < unat c\<close> by (simp only: of_nat_0_less_iff)
    ultimately show ?thesis
      by (intro divide_pos_pos)
  qed
  then show ?thesis
    using len assms(4) by (auto simp: valid_pair_def probs)
qed

lemma update_after_get_probabilities:
  assumes "rows_sized m" "alphabet_size m = length DNA_ALPHABET" "i < length DNA_ALPHABET"
  shows "fst (update (snd (get_probabilities m ctx)) ctx i) = Inr ()"
proof -
  let ?m1 = "snd (get_or_create_context m ctx)"
  have "model ?m1 ctx = Some (fst (get_or_create_context m ctx))"
    by (rule get_or_create_context_fst)
  moreover have "rows_sized ?m1"
    using assms(1) by (rule rows_sized_get_or_create)
  ultimately have "length (fst (get_or_create_context m ctx)) = length DNA_ALPHABET"
    using assms(2) by (auto simp: rows_sized_def get_or_create_context_fields)
  moreover have "get_or_create_context ?m1 ctx = (fst (get_or_create_context m ctx), ?m1)"
    using \<open>model ?m1 ctx = Some (fst (get_or_create_context m ctx))\<close>
    by (simp add: get_or_create_context_def)
  ultimately show ?thesis
    using assms(3) by (simp add: update_def get_probabilities_snd split_beta)
qed

lemma pass1_Cons:
  assumes "pass1 m q (b # rest) = Inr (states, m', q')"
  shows "\<exists>i m2 states'.
           BASE_TO_INDEX b = Some i
         \<and> update (snd (get_probabilities m q)) q i = (Inr (), m2)
         \<and> pass1 m2 (deque_append CONTEXT_LENGTH q b) rest = Inr (states', m', q')
         \<and> states = (i, fst (get_probabilities m q)) # states'"
proof -
  obtain probs m1 where gp: "get_probabilities m q = (probs, m1)"
    by (cases "get_probabilities m q")
  from assms gp obtain i where i: "BASE_TO_INDEX b = Some i"
    by (cases "BASE_TO_INDEX b") auto
  from assms gp i obtain m2 where up: "update m1 q i = (Inr (), m2)"
    by (cases "update m1 q i") (auto split: sum.splits)
  from assms gp i up obtain states' where
    "pass1 m2 (deque_append CONTEXT_LENGTH q b) rest = Inr (states', m', q')"
    "states = (i, probs) # states'"
    by (cases "pass1 m2 (deque_append CONTEXT_LENGTH q b) rest") auto
  with gp i up show ?thesis
    by simp
qed

lemma pass1_total:
  assumes "set s \<subseteq> dom BASE_TO_INDEX" "alphabet_size m = length DNA_ALPHABET" "rows_sized m"
  shows "\<exists>states m' q'. pass1 m q s = Inr (states, m', q')"
  using assms
proof (induction s arbitrary: m q)
  case Nil
  then show ?case by simp
next
  case (Cons b rest)
  from Cons.prems(1) obtain i where i: "BASE_TO_INDEX b = Some i"
    by auto
  then have i4: "i < length DNA_ALPHABET"
    using BASE_TO_INDEX_less [OF i] by (simp add: DNA_ALPHABET_def)
  obtain probs m1 where gp: "get_probabilities m q = (probs, m1)"
    by (cases "get_probabilities m q")
  have m1: "m1 = snd (get_or_create_context m q)"
    using gp by (simp add: get_probabilities_eq)
  obtain m2 where up: "update m1 q i = (Inr (), m2)"
    using update_after_get_probabilities [OF Cons.prems(3,2) i4, of q] gp
    by (cases "update m1 q i") auto
  have "alphabet_size m2 = length DNA_ALPHABET"
    using up update_alphabet_size [of m1 q i] Cons.prems(2) m1
    by (simp add: get_or_create_context_fields)
  moreover have "rows_sized m2"
    using up rows_sized_update [of m1 q i] rows_sized_get_or_create [OF Cons.prems(3), of q] m1
    by simp
  moreover have "set rest \<subseteq> dom BASE_TO_INDEX"
    using Cons.prems(1) by simp
  ultimately obtain states m' q' where
    "pass1 m2 (deque_append CONTEXT_LENGTH q b) rest = Inr (states, m', q')"
    using Cons.IH by blast
  then show ?case
    using gp i up by simp
qed

lemma encode_all_append:
  "encode_all C (xs @ ys) e =
     (case encode_all C xs e of Inl err \<Rightarrow> Inl err | Inr e' \<Rightarrow> encode_all C ys e')"
  by (induction xs arbitrary: e) (auto split: sum.splits)

lemma encode_all_total:
  assumes "coder_ok C" "\<forall>sp \<in> set xs. valid_pair sp"
  shows "\<exists>e'. encode_all C xs e = Inr e'"
  using assms(2)
proof (induction xs arbitrary: e)
  case Nil
  then show ?case by simp
next
  case (Cons sp xs)
  obtain i probs where sp: "sp = (i, probs)"
    by (cases sp)
  then have "length probs = length DNA_ALPHABET \<and> i < length probs \<and> (\<forall>p \<in> set probs. 0 < p)"
    using Cons.prems by (simp add: valid_pair_def)
  then obtain e1 where "encode_reverse C i probs e = Inr e1"
    using assms(1) unfolding coder_ok_def by blast
  moreover obtain e' where "encode_all C xs e1 = Inr e'"
    using Cons.IH Cons.prems by auto
  ultimately show ?case
    using sp by simp
qed

lemma pass1_valid:
  assumes "pass1 m q s = Inr (states, m', q')" "table_ok k m" "1 \<le> k" "k + length s \<le> 2 ^ 32"
  shows "\<forall>sp \<in> set states. valid_pair sp"
  using assms
proof (induction s arbitrary: m q states k)
  case Nil
  then show ?case by simp
next
  case (Cons b rest)
  from pass1_Cons [OF Cons.prems(1)] obtain i m2 states' where
    st: "BASE_TO_INDEX b = Some i"
      "update (snd (get_probabilities m q)) q i = (Inr (), m2)"
      "pass1 m2 (deque_append CONTEXT_LENGTH q b) rest = Inr (states', m', q')"
      "states = (i, fst (get_probabilities m q)) # states'"
    by blast
  have i4: "i < length DNA_ALPHABET"
    using BASE_TO_INDEX_less [OF st(1)] by (simp add: DNA_ALPHABET_def)
  have v: "valid_pair (i, fst (get_probabilities m q))"
    by (rule get_probabilities_valid [OF Cons.prems(2,3) surjective_pairing i4])
  have "\<forall>sp \<in> set states'. valid_pair sp"
  proof (cases "rest = []")
    case True
    then show ?thesis
      using st(3) by simp
  next
    case False
    then have k: "k < 2 ^ 32 - 1"
      using Cons.prems(4) by (cases rest) auto
    have "table_ok k (snd (get_probabilities m q))"
      using Cons.prems(2,3) by (simp add: get_probabilities_snd table_ok_get_or_create)
    then have "table_ok (Suc k) (snd (update (snd (get_probabilities m q)) q i))"
      using Cons.prems(3) k by (rule table_ok_update)
    then have "table_ok (Suc k) m2"
      using st(2) by simp
    then show ?thesis
      using st(3) Cons.prems(4) by (intro Cons.IH [of m2 _ states' "Suc k"]) auto
  qed
  with v st(4) show ?case
    by simp
qed

text \<open>
  The heart of the round trip: the decode loop, started on the state that pass 2 reached
  from \<open>d0\<close>, pops the symbols of pass 1 in document order, rebuilds the same context
  model and queue, and leaves the coder in \<open>d0\<close>.
\<close>

lemma decode_inverts_encode:
  assumes "coder_ok C"
    and "pass1 m q s = Inr (states, m', q')"
    and "\<forall>sp \<in> set states. valid_pair sp"
    and "encode_all C (rev states) d0 = Inr d1"
  shows "decode_loop C (length s) m q d1 out = Inr (m', q', d0, out @ s)"
  using assms(2,3,4)
proof (induction s arbitrary: m q states d1 out)
  case Nil
  then show ?case by simp
next
  case (Cons b rest)
  from pass1_Cons [OF Cons.prems(1)] obtain i m2 states' where
    st: "BASE_TO_INDEX b = Some i"
      "update (snd (get_probabilities m q)) q i = (Inr (), m2)"
      "pass1 m2 (deque_append CONTEXT_LENGTH q b) rest = Inr (states', m', q')"
      "states = (i, fst (get_probabilities m q)) # states'"
    by blast
  let ?probs = "fst (get_probabilities m q)"
  from Cons.prems(3) st(4) obtain dmid where
    mid: "encode_all C (rev states') d0 = Inr dmid" "encode_reverse C i ?probs dmid = Inr d1"
    by (auto simp: encode_all_append split: sum.splits)
  have "length ?probs = length DNA_ALPHABET \<and> i < length ?probs \<and> (\<forall>p \<in> set ?probs. 0 < p)"
    using Cons.prems(2) st(4) by (simp add: valid_pair_def)
  then obtain st' where "encode_reverse C i ?probs dmid = Inr st'" "decode C ?probs st' = Inr (i, dmid)"
    using assms(1) unfolding coder_ok_def by blast
  with mid(2) have dec: "decode C ?probs d1 = Inr (i, dmid)"
    by simp
  have base: "INDEX_TO_BASE i = Some b"
    using st(1) by (rule INDEX_TO_BASE_inverse)
  have "decode_loop C (length rest) m2 (deque_append CONTEXT_LENGTH q b) dmid (out @ [b])
          = Inr (m', q', d0, (out @ [b]) @ rest)"
    using st(3) Cons.prems(2) st(4) mid(1) by (intro Cons.IH) auto
  then show ?case
    using dec st(2) base by (simp add: split_beta)
qed

section \<open>The reader on a file with a header line\<close>

lemma collect_sequence:
  "snd (collect h sq es) = sq @ concat (map (\<lambda>e. case e of BASE c \<Rightarrow> [c] | HEADER _ \<Rightarrow> []) es)"
  by (induction h sq es rule: collect.induct) simp_all

lemma header_loop_events: "e \<in> set (fst (header_loop ls)) \<Longrightarrow> \<exists>h. e = HEADER h"
  by (induction ls) (auto split: if_splits)

lemma bases_loop_events:
  "e \<in> set (bases_loop ls) \<Longrightarrow> \<exists>c. e = BASE c \<and> c \<in> dom BASE_TO_INDEX"
  by (induction ls) (auto split: if_splits)

lemma fasta_events_bases: "BASE c \<in> set (fasta_events content) \<Longrightarrow> c \<in> dom BASE_TO_INDEX"
proof -
  assume a: "BASE c \<in> set (fasta_events content)"
  obtain hs rest where hl: "header_loop (file_lines content) = (hs, rest)"
    by (cases "header_loop (file_lines content)")
  then have "BASE c \<in> set hs \<or> BASE c \<in> set (bases_loop rest)"
    using a by (simp add: fasta_events_def)
  then show ?thesis
  proof
    assume "BASE c \<in> set hs"
    then show ?thesis
      using header_loop_events [of "BASE c" "file_lines content"] hl by simp
  next
    assume "BASE c \<in> set (bases_loop rest)"
    then show ?thesis
      using bases_loop_events by blast
  qed
qed

lemma collected_sequence_alphabet:
  assumes "collect [] [] (fasta_events content) = (header, sequence)"
  shows "set sequence \<subseteq> dom BASE_TO_INDEX"
proof
  fix c
  assume "c \<in> set sequence"
  then have "c \<in> set (snd (collect [] [] (fasta_events content)))"
    using assms by simp
  then obtain e where "e \<in> set (fasta_events content)" "c \<in> set (case e of BASE c \<Rightarrow> [c] | HEADER _ \<Rightarrow> [])"
    by (auto simp: collect_sequence)
  then have "BASE c \<in> set (fasta_events content)"
    by (cases e) auto
  then show "c \<in> dom BASE_TO_INDEX"
    by (rule fasta_events_bases)
qed

lemma collect_bases: "collect h sq (map BASE cs) = (h, sq @ cs)"
  by (induction cs arbitrary: sq) simp_all

lemma universal_newlines_id: "CHR 0x0D \<notin> set s \<Longrightarrow> universal_newlines s = s"
  by (induction s rule: universal_newlines.induct) auto

lemma universal_newlines_no_CR: "CHR 0x0D \<notin> set (universal_newlines s)"
  by (induction s rule: universal_newlines.induct) auto

lemma lines_from_line:
  "CHR 0x0A \<notin> set l \<Longrightarrow> lines_from acc (l @ CHR 0x0A # rest) = (acc @ l @ [CHR 0x0A]) # lines_from [] rest"
  by (induction l arbitrary: acc) auto

lemma lines_from_set:
  "l \<in> set (lines_from acc s) \<Longrightarrow> set l \<subseteq> set acc \<union> set s"
proof (induction s arbitrary: acc)
  case Nil
  then show ?case
    by (auto split: if_splits)
next
  case (Cons c s)
  show ?case
  proof (cases "c = CHR 0x0A")
    case True
    then have "l = acc @ [c] \<or> l \<in> set (lines_from [] s)"
      using Cons.prems by simp
    then show ?thesis
      using Cons.IH [of "[]"] by auto
  next
    case False
    then have "l \<in> set (lines_from (acc @ [c]) s)"
      using Cons.prems by simp
    then show ?thesis
      using Cons.IH [of "acc @ [c]"] by auto
  qed
qed

lemma lines_from_newline_last:
  "l \<in> set (lines_from acc s) \<Longrightarrow> CHR 0x0A \<notin> set acc \<Longrightarrow> CHR 0x0A \<notin> set (butlast l)"
proof (induction s arbitrary: acc)
  case Nil
  then show ?case
    by (auto split: if_splits dest: in_set_butlastD)
next
  case (Cons c s)
  show ?case
  proof (cases "c = CHR 0x0A")
    case True
    then have "l = acc @ [c] \<or> l \<in> set (lines_from [] s)"
      using Cons.prems(1) by simp
    then show ?thesis
      using Cons.IH [of "[]"] Cons.prems(2) by auto
  next
    case False
    then have "l \<in> set (lines_from (acc @ [c]) s)"
      using Cons.prems(1) by simp
    then show ?thesis
      using Cons.IH [of "acc @ [c]"] Cons.prems(2) False by auto
  qed
qed

lemma file_lines_first:
  assumes "CHR 0x0A \<notin> set h" "CHR 0x0D \<notin> set h" "CHR 0x0D \<notin> set body"
  shows "file_lines (h @ CHR 0x0A # body) = (h @ [CHR 0x0A]) # file_lines body"
proof -
  have "universal_newlines (h @ CHR 0x0A # body) = h @ CHR 0x0A # body"
    using assms by (intro universal_newlines_id) auto
  moreover have "universal_newlines body = body"
    using assms(3) by (rule universal_newlines_id)
  ultimately show ?thesis
    using lines_from_line [OF assms(1), of "[]" body] by (simp add: file_lines_def)
qed

lemma file_lines_wrapped:
  assumes "\<forall>l \<in> set ls. CHR 0x0A \<notin> set l \<and> CHR 0x0D \<notin> set l"
  shows "file_lines (concat (map (\<lambda>l. l @ [CHR 0x0A]) ls)) = map (\<lambda>l. l @ [CHR 0x0A]) ls"
proof -
  have "CHR 0x0D \<notin> set (concat (map (\<lambda>l. l @ [CHR 0x0A]) ls))"
    using assms by auto
  then have "universal_newlines (concat (map (\<lambda>l. l @ [CHR 0x0A]) ls)) = concat (map (\<lambda>l. l @ [CHR 0x0A]) ls)"
    by (rule universal_newlines_id)
  moreover have "lines_from [] (concat (map (\<lambda>l. l @ [CHR 0x0A]) ls)) = map (\<lambda>l. l @ [CHR 0x0A]) ls"
    using assms
  proof (induction ls)
    case Nil
    then show ?case by simp
  next
    case (Cons l ls)
    then have "lines_from [] (l @ CHR 0x0A # concat (map (\<lambda>l. l @ [CHR 0x0A]) ls))
        = (l @ [CHR 0x0A]) # lines_from [] (concat (map (\<lambda>l. l @ [CHR 0x0A]) ls))"
      using lines_from_line [of l "[]"] by simp
    then show ?case
      using Cons by simp
  qed
  ultimately show ?thesis
    by (simp add: file_lines_def)
qed

lemma strip_line:
  assumes "h \<noteq> []" "\<not> is_space (hd h)" "\<not> is_space (last h)"
  shows "strip (h @ [CHR 0x0A]) = h"
proof -
  have a: "dropWhile is_space (h @ [CHR 0x0A]) = h @ [CHR 0x0A]"
    using assms(1,2) by (cases h) auto
  have b: "dropWhile is_space (rev h) = rev h"
    using assms(1,3) by (cases h rule: rev_cases) auto
  show ?thesis
    by (simp add: strip_def a b is_space_def)
qed

lemma strip_subset: "set (strip l) \<subseteq> set l"
proof
  fix x
  assume "x \<in> set (strip l)"
  then have "x \<in> set (dropWhile is_space (rev (dropWhile is_space l)))"
    by (simp add: strip_def)
  then have "x \<in> set (rev (dropWhile is_space l))"
    by (rule set_dropWhileD)
  then have "x \<in> set (dropWhile is_space l)"
    by simp
  then show "x \<in> set l"
    by (rule set_dropWhileD)
qed

lemma strip_last: "strip l \<noteq> [] \<Longrightarrow> \<not> is_space (last (strip l))"
proof -
  assume ne: "strip l \<noteq> []"
  let ?r = "dropWhile is_space (rev (dropWhile is_space l))"
  have "?r \<noteq> []"
    using ne by (simp add: strip_def)
  then have "\<not> is_space (hd ?r)"
    by (rule hd_dropWhile)
  moreover have "last (strip l) = hd ?r"
    using \<open>?r \<noteq> []\<close> by (simp add: strip_def last_rev)
  ultimately show ?thesis
    by simp
qed

lemma strip_startswith_gt: "startswith_gt l \<Longrightarrow> startswith_gt (strip l)"
proof -
  assume a: "startswith_gt l"
  then obtain r where l: "l = CHR ''>'' # r"
    by (auto simp: startswith_gt_def split: list.splits)
  have ns: "\<not> is_space (CHR ''>'')"
    by (simp add: is_space_def)
  have "\<exists>pre. dropWhile is_space (rev r @ [CHR ''>'']) = pre @ [CHR ''>'']"
    using ns by (cases "\<forall>x \<in> set (rev r). is_space x") (simp_all add: dropWhile_append)
  then obtain pre where pre: "dropWhile is_space (rev r @ [CHR ''>'']) = pre @ [CHR ''>'']"
    by blast
  have "strip l = rev (dropWhile is_space (rev r @ [CHR ''>'']))"
    using ns by (simp add: strip_def l)
  also have "\<dots> = CHR ''>'' # rev pre"
    by (simp only: pre) simp
  finally show ?thesis
    by (simp add: startswith_gt_def)
qed

lemma butlast_dropWhile_subset: "set (butlast (dropWhile P l)) \<subseteq> set (butlast l)"
  by (induction l) auto

lemma strip_no_newline:
  assumes "CHR 0x0A \<notin> set (butlast l)"
  shows "CHR 0x0A \<notin> set (strip l)"
proof -
  let ?t = "dropWhile is_space l"
  have t: "CHR 0x0A \<notin> set (butlast ?t)"
    using assms butlast_dropWhile_subset [of is_space l] by auto
  show ?thesis
  proof (cases ?t rule: rev_cases)
    case Nil
    have "strip l = rev (dropWhile is_space (rev ?t))"
      by (simp add: strip_def)
    then have "strip l = []"
      unfolding Nil by simp
    then show ?thesis by simp
  next
    case (snoc t' c)
    show ?thesis
    proof (cases "is_space c")
      case True
      then have "set (strip l) \<subseteq> set t'"
        using snoc set_dropWhileD [of _ is_space "rev t'"] by (auto simp: strip_def)
      then show ?thesis
        using t snoc by auto
    next
      case False
      then have "strip l = t' @ [c]"
        using snoc by (simp add: strip_def)
      moreover have "c \<noteq> CHR 0x0A"
        using False by (auto simp: is_space_def)
      ultimately show ?thesis
        using t snoc by auto
    qed
  qed
qed

lemma fasta_events_header_line:
  assumes "startswith_gt h" "\<not> is_space (last h)"
    and "CHR 0x0A \<notin> set h" "CHR 0x0D \<notin> set h" "CHR 0x0D \<notin> set body"
  shows "fasta_events (h @ CHR 0x0A # body) = HEADER h # bases_loop (file_lines body)"
proof -
  have ne: "h \<noteq> []" and gt: "hd h = CHR ''>''"
    using assms(1) by (auto simp: startswith_gt_def split: list.splits)
  have "\<not> is_space (hd h)"
    by (simp add: gt is_space_def)
  then have "strip (h @ [CHR 0x0A]) = h"
    using ne assms(2) by (intro strip_line)
  moreover have "startswith_gt (h @ [CHR 0x0A])"
    using assms(1) by (cases h) (auto simp: startswith_gt_def)
  ultimately show ?thesis
    using file_lines_first [OF assms(3,4,5)] by (simp add: fasta_events_def)
qed

lemma alphabet_chars:
  assumes "c \<in> set DNA_ALPHABET"
  shows "\<not> is_space c" "c \<noteq> CHR ''>''" "c \<noteq> CHR 0x0A" "c \<noteq> CHR 0x0D" "upper_char c = c"
    "c \<in> dom BASE_TO_INDEX"
  using assms
  by (auto simp: DNA_ALPHABET_def is_space_def upper_char_def in_dom_BASE_TO_INDEX)

lemma base_line_events:
  assumes "set l \<subseteq> set DNA_ALPHABET"
  shows "\<not> startswith_gt (l @ [CHR 0x0A])"
    and "map BASE (filter (\<lambda>c. c \<in> dom BASE_TO_INDEX) (upper (strip (l @ [CHR 0x0A])))) = map BASE l"
proof -
  show "\<not> startswith_gt (l @ [CHR 0x0A])"
    using assms alphabet_chars(2) by (cases l) (auto simp: startswith_gt_def)
  have st: "strip (l @ [CHR 0x0A]) = l"
  proof (cases "l = []")
    case True
    then show ?thesis by (simp add: strip_def is_space_def)
  next
    case False
    then have "hd l \<in> set DNA_ALPHABET" "last l \<in> set DNA_ALPHABET"
      using assms by (auto simp: subset_iff)
    then show ?thesis
      using False alphabet_chars(1) by (intro strip_line) auto
  qed
  have "upper l = l"
    using assms alphabet_chars(5) by (auto simp: upper_def subset_iff intro: map_idI)
  moreover have "filter (\<lambda>c. c \<in> dom BASE_TO_INDEX) l = l"
    using assms alphabet_chars(6) by (auto simp: subset_iff)
  ultimately show "map BASE (filter (\<lambda>c. c \<in> dom BASE_TO_INDEX) (upper (strip (l @ [CHR 0x0A])))) = map BASE l"
    by (simp add: st)
qed

lemma bases_loop_wrapped:
  "\<forall>l \<in> set ls. set l \<subseteq> set DNA_ALPHABET \<Longrightarrow>
   bases_loop (map (\<lambda>l. l @ [CHR 0x0A]) ls) = map BASE (concat ls)"
  by (induction ls) (simp_all add: base_line_events)

text \<open>
  An ASCII header line followed by lines of bases, whatever their widths, reads as the
  header and the concatenation of the lines.
\<close>

lemma fasta_events_wrapped:
  assumes "startswith_gt h" "\<not> is_space (last h)" "CHR 0x0A \<notin> set h" "CHR 0x0D \<notin> set h"
    and "\<forall>l \<in> set ls. set l \<subseteq> set DNA_ALPHABET"
    and "ascii h"
  shows "collect [] [] (fasta_events (h @ CHR 0x0A # concat (map (\<lambda>l. l @ [CHR 0x0A]) ls)))
           = (h, concat ls)"
proof -
  have nl: "\<forall>l \<in> set ls. CHR 0x0A \<notin> set l \<and> CHR 0x0D \<notin> set l"
    using assms(5) alphabet_chars(3,4) by (auto simp: subset_iff)
  then have "CHR 0x0D \<notin> set (concat (map (\<lambda>l. l @ [CHR 0x0A]) ls))"
    by auto
  then have "fasta_events (h @ CHR 0x0A # concat (map (\<lambda>l. l @ [CHR 0x0A]) ls))
      = HEADER h # bases_loop (file_lines (concat (map (\<lambda>l. l @ [CHR 0x0A]) ls)))"
    using assms(1,2,3,4) by (intro fasta_events_header_line)
  then show ?thesis
    by (simp add: file_lines_wrapped [OF nl] bases_loop_wrapped [OF assms(5)] collect_bases)
qed

lemma header_loop_result:
  "header_loop ls = (hs, rest) \<Longrightarrow>
   (hs = [] \<and> rest = []) \<or> (\<exists>line \<in> set ls. startswith_gt line \<and> hs = [HEADER (strip line)])"
  by (induction ls) (auto split: if_splits)

lemma bases_loop_map: "\<exists>cs. bases_loop ls = map BASE cs"
proof (induction ls)
  case Nil
  then show ?case by simp
next
  case (Cons l ls)
  then obtain cs where "bases_loop ls = map BASE cs"
    by blast
  then show ?case
    by (cases "startswith_gt l") (auto simp flip: map_append)
qed

lemma collected_header:
  assumes "collect [] [] (fasta_events content) = (header, sequence)" "sequence \<noteq> []"
  shows "startswith_gt header \<and> \<not> is_space (last header)
         \<and> CHR 0x0A \<notin> set header \<and> CHR 0x0D \<notin> set header"
proof -
  obtain hs rest where hl: "header_loop (file_lines content) = (hs, rest)"
    by (cases "header_loop (file_lines content)")
  obtain cs where cs: "bases_loop rest = map BASE cs"
    using bases_loop_map by blast
  have ev: "fasta_events content = hs @ map BASE cs"
    using hl cs by (simp add: fasta_events_def)
  from header_loop_result [OF hl] show ?thesis
  proof
    assume "hs = [] \<and> rest = []"
    then have "fasta_events content = []"
      using hl by (simp add: fasta_events_def)
    then show ?thesis
      using assms by simp
  next
    assume "\<exists>line \<in> set (file_lines content). startswith_gt line \<and> hs = [HEADER (strip line)]"
    then obtain line where line: "line \<in> set (file_lines content)" "startswith_gt line"
      "hs = [HEADER (strip line)]"
      by blast
    then have "header = strip line"
      using assms(1) ev by (simp add: collect_bases)
    moreover have "startswith_gt (strip line)"
      using line(2) by (rule strip_startswith_gt)
    moreover from this have "\<not> is_space (last (strip line))"
      by (intro strip_last) (auto simp: startswith_gt_def)
    moreover have "CHR 0x0A \<notin> set (strip line)"
      using line(1) by (intro strip_no_newline lines_from_newline_last [of _ "[]"]) (simp_all add: file_lines_def)
    moreover have "CHR 0x0D \<notin> set line"
      using line(1) lines_from_set [of line "[]" "universal_newlines content"]
        universal_newlines_no_CR [of content]
      by (auto simp: file_lines_def)
    then have "CHR 0x0D \<notin> set (strip line)"
      using strip_subset [of line] by auto
    ultimately show ?thesis
      by simp
  qed
qed

lemma slices70_alphabet:
  "set s \<subseteq> A \<Longrightarrow> \<forall>l \<in> set (slices70 s). set l \<subseteq> A"
proof -
  assume "set s \<subseteq> A"
  moreover have "set (concat (slices70 s)) = set s"
    by (simp add: concat_slices70)
  ultimately show ?thesis
    by auto
qed

text \<open>The header that the reader extracts from an ASCII file is ASCII.\<close>

lemma universal_newlines_subset: "set (universal_newlines s) \<subseteq> insert (CHR 0x0A) (set s)"
  by (induction s rule: universal_newlines.induct) auto

lemma collected_header_chars:
  assumes "collect [] [] (fasta_events content) = (header, sequence)"
  shows "set header \<subseteq> insert (CHR 0x0A) (set content)"
proof -
  obtain hs rest where hl: "header_loop (file_lines content) = (hs, rest)"
    by (cases "header_loop (file_lines content)")
  obtain cs where cs: "bases_loop rest = map BASE cs"
    using bases_loop_map by blast
  have ev: "fasta_events content = hs @ map BASE cs"
    using hl cs by (simp add: fasta_events_def)
  from header_loop_result [OF hl] show ?thesis
  proof
    assume "hs = [] \<and> rest = []"
    then have "header = []"
      using assms ev by (simp add: collect_bases)
    then show ?thesis by simp
  next
    assume "\<exists>line \<in> set (file_lines content). startswith_gt line \<and> hs = [HEADER (strip line)]"
    then obtain line where line: "line \<in> set (file_lines content)" "hs = [HEADER (strip line)]"
      by blast
    then have "header = strip line"
      using assms ev by (simp add: collect_bases)
    moreover have "set line \<subseteq> set (universal_newlines content)"
      using line(1) lines_from_set [of line "[]" "universal_newlines content"]
      by (simp add: file_lines_def)
    ultimately show ?thesis
      using strip_subset [of line] universal_newlines_subset [of content] by blast
  qed
qed

lemma collected_header_ascii:
  assumes "ascii content" "collect [] [] (fasta_events content) = (header, sequence)"
  shows "ascii header"
proof -
  have "(of_char c :: nat) < 128" if "c \<in> set header" for c
  proof -
    have "c = CHR 0x0A \<or> c \<in> set content"
      using that collected_header_chars [OF assms(2)] by auto
    then show ?thesis
      using assms(1) by (auto simp: ascii_def)
  qed
  then show ?thesis
    by (simp add: ascii_def)
qed

lemma ascii_utf8_ok: "ascii s \<Longrightarrow> utf8_ok s"
  by (induction s) (auto simp: ascii_def in_range_def)

text \<open>
  The text that \<^verbatim>\<open>decompress_file\<close> writes for a header and a sequence that came out of
  the reader on an ASCII file reads back, with the same reader, as that header and that
  sequence.
\<close>

lemma restored_text_reads_back:
  assumes "collect [] [] (fasta_events content) = (header, sequence)" "sequence \<noteq> []"
    and "ascii content"
  shows "collect [] [] (fasta_events (render header sequence)) = (header, sequence)"
proof -
  have ah: "ascii header"
    using assms(3,1) by (rule collected_header_ascii)
  have "set sequence \<subseteq> dom BASE_TO_INDEX"
    using assms(1) by (rule collected_sequence_alphabet)
  moreover have "dom BASE_TO_INDEX = set DNA_ALPHABET"
    using in_dom_BASE_TO_INDEX by (auto simp: DNA_ALPHABET_def)
  ultimately have "set sequence \<subseteq> set DNA_ALPHABET"
    by simp
  then have sl: "\<forall>l \<in> set (slices70 sequence). set l \<subseteq> set DNA_ALPHABET"
    by (rule slices70_alphabet)
  have h: "startswith_gt header" "\<not> is_space (last header)"
    "CHR 0x0A \<notin> set header" "CHR 0x0D \<notin> set header"
    using collected_header [OF assms(1,2)] by simp_all
  have "collect [] [] (fasta_events
          (header @ CHR 0x0A # concat (map (\<lambda>l. l @ [CHR 0x0A]) (slices70 sequence))))
        = (header, concat (slices70 sequence))"
    using h sl ah by (rule fasta_events_wrapped)
  then show ?thesis
    by (simp add: render_def concat_slices70)
qed

section \<open>Round trip\<close>

lemma decompress_file_nonempty:
  assumes "files input_path = Some (File content)"
    and "read_container content =
           \<lparr>c_seq_len = n, c_header_len = hl, c_header_bytes = header, c_rest = rest\<rparr>"
    and "utf8_ok header"
  shows "decompress_file C bo files input_path output_path =
     (case frombuffer bo rest of
        Inl e \<Rightarrow> (Inl e, files)
      | Inr compressed_data \<Rightarrow>
          if n = 0 then
            (case open_write files output_path of
               Inl e \<Rightarrow> (Inl e, files)
             | Inr _ \<Rightarrow> (Inr (), files(output_path \<mapsto> File header)))
          else
            (case AnsCoder_of C compressed_data of
               Inl e \<Rightarrow> (Inl e, files)
             | Inr decoder \<Rightarrow>
                 (case decode_loop C n (ContextModel_init CONTEXT_LENGTH (length DNA_ALPHABET))
                         initial_queue decoder [] of
                    Inl e \<Rightarrow> (Inl e, files)
                  | Inr (_, _, _, decoded_sequence) \<Rightarrow>
                      (case open_write files output_path of
                         Inl e \<Rightarrow> (Inl e, files)
                       | Inr _ \<Rightarrow>
                           (Inr (), files(output_path \<mapsto> File (render header decoded_sequence)))))))"
proof -
  have c: "c_seq_len (read_container content) = n" "c_header_bytes (read_container content) = header"
    "c_rest (read_container content) = rest"
    using assms(2) by simp_all
  have rd: "open_read files input_path = Inr content"
    using assms(1) by (simp add: open_read_def)
  have hd: "decode_utf8 header = Inr header"
    using assms(3) by (simp add: decode_utf8_def)
  show ?thesis
    unfolding decompress_file_def Let_def rd sum.case c hd by (rule refl)
qed

lemma coder_ok_stack_coder: "coder_ok stack_coder"
proof -
  have "unat (word_of_nat i :: u32) = i" if "i < 4" for i :: nat
  proof -
    have "i < 2 ^ 32"
      using that by simp
    then show ?thesis
      by (simp add: unat_of_nat)
  qed
  then show ?thesis
    by (simp add: coder_ok_def stack_coder_simps DNA_ALPHABET_def)
qed

lemma write_container_header_overflow:
  assumes "n < 2 ^ 64" "65535 < length header"
  shows "write_container bo n header ws = (Inl OverflowError, rev (to_le 8 n))"
  using assms by (simp add: write_container_def to_bytes_big_def)

lemma long_header_facts:
  "length long_header = 65536" "startswith_gt long_header" "\<not> is_space (last long_header)"
  "CHR 0x0A \<notin> set long_header" "CHR 0x0D \<notin> set long_header"
  by (simp_all add: long_header_def startswith_gt_def is_space_def)

lemma events_long_header:
  "collect [] [] (fasta_events (long_header @ CHR 0x0A # ''ACGT\<newline>'')) = (long_header, ''ACGT'')"
proof -
  have "fasta_events (long_header @ CHR 0x0A # ''ACGT\<newline>'')
          = HEADER long_header # bases_loop (file_lines ''ACGT\<newline>'')"
    by (rule fasta_events_header_line) (simp_all add: long_header_facts)
  then show ?thesis
    by (simp add: reader_eval)
qed

lemma pass1_acgt_ok:
  "\<exists>states m q. pass1 (ContextModel_init CONTEXT_LENGTH (length DNA_ALPHABET)) initial_queue ''ACGT''
     = Inr (states, m, q)"
  by (rule pass1_total) (simp_all add: in_dom_BASE_TO_INDEX subset_iff ContextModel_init_def rows_sized_def)

lemma pass2_stack_coder_ok: "\<exists>ws. pass2 stack_coder states = Inr ws"
proof -
  have "\<exists>e'. encode_all stack_coder xs e = Inr e'" for xs e
    by (induction xs arbitrary: e) (auto simp: stack_coder_simps)
  then show ?thesis
    by (auto simp: pass2_def split: sum.splits)
       (metis sum.distinct(1))
qed

lemma compress_long_header:
  "compress_file stack_coder Little [''long.fa'' \<mapsto> File (long_header @ CHR 0x0A # ''ACGT\<newline>'')]
     ''long.fa'' ''long.bin'' =
   (Inl OverflowError,
    [''long.fa'' \<mapsto> File (long_header @ CHR 0x0A # ''ACGT\<newline>''),
     ''long.bin'' \<mapsto> File [CHR 0x00, CHR 0x00, CHR 0x00, CHR 0x00, CHR 0x00, CHR 0x00, CHR 0x00, CHR 0x04]])"
proof -
  let ?files = "[''long.fa'' \<mapsto> File (long_header @ CHR 0x0A # ''ACGT\<newline>'')]"
  obtain states m q where p1:
    "pass1 (ContextModel_init CONTEXT_LENGTH (length DNA_ALPHABET)) initial_queue ''ACGT'' = Inr (states, m, q)"
    using pass1_acgt_ok by blast
  obtain ws where p2: "pass2 stack_coder states = Inr ws"
    using pass2_stack_coder_ok by blast
  have wc: "write_container Little (length ''ACGT'') long_header ws =
      (Inl OverflowError, rev (to_le 8 (length ''ACGT'')))"
    by (rule write_container_header_overflow) (simp_all add: long_header_facts)
  have b: "rev (to_le 8 (length ''ACGT'')) =
      [CHR 0x00, CHR 0x00, CHR 0x00, CHR 0x00, CHR 0x00, CHR 0x00, CHR 0x00, CHR 0x04]"
    by (simp add: to_le_numeral char_of_eq_iff)
  have "compress_file stack_coder Little ?files ''long.fa'' ''long.bin'' =
      (Inl OverflowError, ?files(''long.bin'' \<mapsto> File (rev (to_le 8 (length ''ACGT'')))))"
    using compress_file_nonempty [of ?files "''long.fa''" "long_header @ CHR 0x0A # ''ACGT\<newline>''"
        long_header "''ACGT''" stack_coder Little "''long.bin''", OF _ events_long_header]
    by (simp only: p1 p2 wc sum.case prod.case fst_conv snd_conv) (simp add: open_write_def)
  then show ?thesis
    by (simp only: b)
qed

text \<open>
  Compression followed by decompression of an ASCII input file, for a coder that obeys
  \<open>coder_ok\<close>.
\<close>

lemma compress_then_decompress:
  assumes "coder_ok C"
    and "files input_path = Some (File content)"
    and "collect [] [] (fasta_events content) = (header, sequence)"
    and "sequence \<noteq> []" and "length sequence < 2 ^ 32"
    and "length header \<le> 65535" and "ascii content"
    and "files output_path \<noteq> Some Unreadable"
    and "restored_path \<noteq> output_path \<longrightarrow> files restored_path \<noteq> Some Unreadable"
  shows "\<exists>data.
           compress_file C bo files input_path output_path = (Inr (), files(output_path \<mapsto> File data))
         \<and> decompress_file C bo (files(output_path \<mapsto> File data)) output_path restored_path =
             (Inr (), files(output_path \<mapsto> File data,
                restored_path \<mapsto> File (render header sequence)))"
proof -
  let ?m0 = "ContextModel_init CONTEXT_LENGTH (length DNA_ALPHABET)"
  have "ascii header"
    using assms(7,3) by (rule collected_header_ascii)
  then have u: "utf8_ok header"
    by (rule ascii_utf8_ok)
  have alpha: "set sequence \<subseteq> dom BASE_TO_INDEX"
    using assms(3) by (rule collected_sequence_alphabet)
  have ok0: "table_ok 1 ?m0"
    by (rule table_ok_init)
  then obtain states m' q' where p1: "pass1 ?m0 initial_queue sequence = Inr (states, m', q')"
    using pass1_total [OF alpha, of ?m0 initial_queue] by (auto simp: table_ok_def)
  have valid: "\<forall>sp \<in> set states. valid_pair sp"
    using p1 ok0 _ _ by (rule pass1_valid) (use assms(5) in simp_all)
  then have "\<forall>sp \<in> set (rev states). valid_pair sp"
    by simp
  then obtain e where enc: "encode_all C (rev states) (AnsCoder_empty C) = Inr e"
    using encode_all_total [OF assms(1)] by blast
  let ?ws = "get_compressed C e"
  have p2: "pass2 C states = Inr ?ws"
    using enc by (simp add: pass2_def)
  let ?data = "rev (to_le 8 (length sequence)) @ rev (to_le 2 (length header)) @ header @ tobytes bo ?ws"
  have len64: "length sequence < 2 ^ 64"
    using assms(5) by (rule less_trans) simp
  have wc: "write_container bo (length sequence) header ?ws = (Inr (), ?data)"
    using len64 assms(6) by (rule write_container_ok)
  have comp: "compress_file C bo files input_path output_path = (Inr (), files(output_path \<mapsto> File ?data))"
    using compress_file_nonempty [of files input_path content header sequence C bo output_path,
        OF assms(2,3,4)] p1 p2 wc open_write_ok [of files output_path] assms(8)
    by simp
  let ?files' = "files(output_path \<mapsto> File ?data)"
  have b: "to_bytes_big (length sequence) 8 = Inr (rev (to_le 8 (length sequence)))"
    "to_bytes_big (length header) 2 = Inr (rev (to_le 2 (length header)))"
    using len64 assms(6) by (simp_all add: to_bytes_big_def)
  have rc: "read_container ?data =
      \<lparr>c_seq_len = length sequence, c_header_len = length header, c_header_bytes = header,
       c_rest = tobytes bo ?ws\<rparr>"
    using b by (rule read_container_written)
  have coder: "AnsCoder_of C ?ws = Inr e"
    using assms(1) by (simp add: coder_ok_def)
  have loop: "decode_loop C (length sequence) ?m0 initial_queue e [] =
      Inr (m', q', AnsCoder_empty C, [] @ sequence)"
    using assms(1) p1 valid enc by (rule decode_inverts_encode)
  have ow: "open_write ?files' restored_path = Inr ()"
    using assms(9) by (intro open_write_ok) simp
  have "decompress_file C bo ?files' output_path restored_path =
      (Inr (), ?files'(restored_path \<mapsto> File (render header sequence)))"
    using decompress_file_nonempty [of ?files' output_path ?data "length sequence" "length header"
        header "tobytes bo ?ws" C bo restored_path, OF _ rc u]
      assms(4) coder loop ow
    by (simp add: frombuffer_tobytes)
  with comp show ?thesis
    by (intro exI [of _ ?data]) simp
qed

text \<open>
  The same for an input written as an ASCII header line followed by the bases in lines
  of any widths: the restored text depends on the header and on the concatenation of the
  lines only.
\<close>

lemma round_trip_any_wrapping:
  assumes "coder_ok C"
    and "startswith_gt h" and "\<not> is_space (last h)"
    and "CHR 0x0A \<notin> set h" and "CHR 0x0D \<notin> set h"
    and "length h \<le> 65535" and "ascii h"
    and "\<forall>l \<in> set ls. set l \<subseteq> set DNA_ALPHABET"
    and "concat ls \<noteq> []" and "length (concat ls) < 2 ^ 32"
    and "files input_path = Some (File (h @ CHR 0x0A # concat (map (\<lambda>l. l @ [CHR 0x0A]) ls)))"
    and "files output_path \<noteq> Some Unreadable"
    and "restored_path \<noteq> output_path \<longrightarrow> files restored_path \<noteq> Some Unreadable"
  shows "\<exists>data.
           compress_file C bo files input_path output_path = (Inr (), files(output_path \<mapsto> File data))
         \<and> decompress_file C bo (files(output_path \<mapsto> File data)) output_path restored_path =
             (Inr (), files(output_path \<mapsto> File data,
                restored_path \<mapsto> File (render h (concat ls))))"
proof -
  have ev: "collect [] [] (fasta_events (h @ CHR 0x0A # concat (map (\<lambda>l. l @ [CHR 0x0A]) ls)))
      = (h, concat ls)"
    using assms(2,3,4,5,8,7) by (rule fasta_events_wrapped)
  have "(of_char c :: nat) < 128" if "c \<in> set DNA_ALPHABET" for c
    using that by (auto simp: DNA_ALPHABET_def)
  then have ac: "ascii (h @ CHR 0x0A # concat (map (\<lambda>l. l @ [CHR 0x0A]) ls))"
    using assms(7,8) by (auto simp: ascii_def)
  from compress_then_decompress [of C files input_path _ h "concat ls" output_path restored_path bo,
      OF assms(1,11) ev assms(9,10,6) ac assms(12,13)]
  show ?thesis
    by blast
qed

text \<open>
  Claim C1 as the spec states it: for every non-empty sequence \<open>S\<close>, compressing an input
  file that contains \<open>S\<close> and decompressing the result gives back \<open>S\<close>. Two inputs on
  which it does not. A header line of 65536 bytes does not fit the 2-byte length field:
  \<^verbatim>\<open>compress_file\<close> raises \<^verbatim>\<open>OverflowError\<close> after it has written the 8 length bytes, and
  there is no container to decompress. And a file that holds \<^verbatim>\<open>ACGT\<close> with no header line
  is read as the empty sequence (the defect of claim C7): the container is the 8 zero
  bytes and the restored text is empty.
\<close>

theorem header_overflow_and_headerless_input:
  "compress_file stack_coder Little [''long.fa'' \<mapsto> File (long_header @ CHR 0x0A # ''ACGT\<newline>'')]
     ''long.fa'' ''long.bin'' =
   (Inl OverflowError,
    [''long.fa'' \<mapsto> File (long_header @ CHR 0x0A # ''ACGT\<newline>''),
     ''long.bin'' \<mapsto> File [CHR 0x00, CHR 0x00, CHR 0x00, CHR 0x00, CHR 0x00, CHR 0x00, CHR 0x00, CHR 0x04]])
   \<and> compress_file stack_coder Little [''plain.fa'' \<mapsto> File ''ACGT\<newline>''] ''plain.fa'' ''plain.bin'' =
   (Inr (), [''plain.fa'' \<mapsto> File ''ACGT\<newline>'', ''plain.bin'' \<mapsto> File (replicate 8 (CHR 0x00))])
   \<and> decompress_file stack_coder Little
       [''plain.fa'' \<mapsto> File ''ACGT\<newline>'', ''plain.bin'' \<mapsto> File (replicate 8 (CHR 0x00))]
       ''plain.bin'' ''plain.out'' =
   (Inr (), [''plain.fa'' \<mapsto> File ''ACGT\<newline>'', ''plain.bin'' \<mapsto> File (replicate 8 (CHR 0x00)),
             ''plain.out'' \<mapsto> File []])"
proof -
  have "fasta_events ''ACGT\<newline>'' = []"
    by (rule fasta_events_no_header) (simp add: file_lines_def startswith_gt_def)
  then have "snd (collect [] [] (fasta_events ''ACGT\<newline>'')) = []"
    by simp
  then have "compress_file stack_coder Little [''plain.fa'' \<mapsto> File ''ACGT\<newline>''] ''plain.fa'' ''plain.bin'' =
      (Inr (), [''plain.fa'' \<mapsto> File ''ACGT\<newline>'', ''plain.bin'' \<mapsto> File (replicate 8 (CHR 0x00))])"
    by (intro compress_file_empty [where content = "''ACGT\<newline>''"]) simp_all
  moreover have "decompress_file stack_coder Little
       [''plain.fa'' \<mapsto> File ''ACGT\<newline>'', ''plain.bin'' \<mapsto> File (replicate 8 (CHR 0x00))]
       ''plain.bin'' ''plain.out'' =
      (Inr (), [''plain.fa'' \<mapsto> File ''ACGT\<newline>'', ''plain.bin'' \<mapsto> File (replicate 8 (CHR 0x00)),
             ''plain.out'' \<mapsto> File []])"
    by (intro decompress_file_zeros) simp_all
  ultimately show ?thesis
    using compress_long_header by (simp only: simp_thms)
qed

text \<open>
  Claim C1, amended: let the input be an ASCII file that the reader parses to a header
  of at most 65535 bytes and a non-empty sequence \<open>S\<close> of fewer than \<open>2^32\<close> bases (so no
  count can wrap to zero and every probability handed to the coder is positive), and let
  the coder obey \<open>coder_ok\<close>. Then \<^verbatim>\<open>compress_file\<close> succeeds, \<^verbatim>\<open>decompress_file\<close> on
  its output succeeds and writes the header line followed by \<open>S\<close> in lines of 70; the
  sequence lines concatenate to \<open>S\<close>, and reading the restored text with the program's
  reader gives the header and \<open>S\<close> again. The statement depends on the input only through
  what the reader extracts from it, so the line wrapping of the input plays no part
  (\<open>round_trip_any_wrapping\<close> above spells this out).
\<close>

theorem round_trip:
  assumes "coder_ok C"
    and "files input_path = Some (File content)"
    and "collect [] [] (fasta_events content) = (header, sequence)"
    and "sequence \<noteq> []" and "length sequence < 2 ^ 32"
    and "length header \<le> 65535" and "ascii content"
    and "files output_path \<noteq> Some Unreadable"
    and "restored_path \<noteq> output_path \<longrightarrow> files restored_path \<noteq> Some Unreadable"
  shows "\<exists>data.
           compress_file C bo files input_path output_path = (Inr (), files(output_path \<mapsto> File data))
         \<and> decompress_file C bo (files(output_path \<mapsto> File data)) output_path restored_path =
             (Inr (), files(output_path \<mapsto> File data,
                restored_path \<mapsto> File (render header sequence)))
         \<and> render header sequence =
               header @ [CHR 0x0A] @ concat (map (\<lambda>l. l @ [CHR 0x0A]) (slices70 sequence))
         \<and> concat (slices70 sequence) = sequence
         \<and> collect [] [] (fasta_events (render header sequence)) = (header, sequence)"
proof -
  from compress_then_decompress [of C files input_path content header sequence output_path
      restored_path bo, OF assms]
  obtain data where
    "compress_file C bo files input_path output_path = (Inr (), files(output_path \<mapsto> File data))"
    "decompress_file C bo (files(output_path \<mapsto> File data)) output_path restored_path =
       (Inr (), files(output_path \<mapsto> File data,
          restored_path \<mapsto> File (render header sequence)))"
    by blast
  moreover have "render header sequence =
      header @ [CHR 0x0A] @ concat (map (\<lambda>l. l @ [CHR 0x0A]) (slices70 sequence))"
    by (simp add: render_def)
  moreover have "concat (slices70 sequence) = sequence"
    by (rule concat_slices70)
  moreover have "collect [] [] (fasta_events (render header sequence)) = (header, sequence)"
    using assms(3,4,7) by (rule restored_text_reads_back)
  ultimately show ?thesis
    by blast
qed

theorem round_trip_witness:
  "coder_ok stack_coder
   \<and> collect [] [] (fasta_events ''>h\<newline>CG\<newline>'') = (''>h'', ''CG'')
   \<and> ascii ''>h\<newline>CG\<newline>''
   \<and> (\<exists>data.
         compress_file stack_coder Little [''cg.fa'' \<mapsto> File ''>h\<newline>CG\<newline>''] ''cg.fa'' ''cg.bin'' =
           (Inr (), [''cg.fa'' \<mapsto> File ''>h\<newline>CG\<newline>'', ''cg.bin'' \<mapsto> File data])
       \<and> decompress_file stack_coder Little [''cg.fa'' \<mapsto> File ''>h\<newline>CG\<newline>'', ''cg.bin'' \<mapsto> File data]
           ''cg.bin'' ''cg.out'' =
           (Inr (), [''cg.fa'' \<mapsto> File ''>h\<newline>CG\<newline>'', ''cg.bin'' \<mapsto> File data,
                     ''cg.out'' \<mapsto> File ''>h\<newline>CG\<newline>'']))"
proof -
  have u: "ascii ''>h\<newline>CG\<newline>''"
    by (simp add: ascii_def)
  have s: "render ''>h'' ''CG'' = ''>h\<newline>CG\<newline>''"
    by (simp add: render_def slices70.simps)
  from round_trip [OF coder_ok_stack_coder, of "[''cg.fa'' \<mapsto> File ''>h\<newline>CG\<newline>'']" "''cg.fa''"
      "''>h\<newline>CG\<newline>''" "''>h''" "''CG''" "''cg.bin''" "''cg.out''" Little, OF _ events_cg _ _ _ u]
  have "\<exists>data.
         compress_file stack_coder Little [''cg.fa'' \<mapsto> File ''>h\<newline>CG\<newline>''] ''cg.fa'' ''cg.bin'' =
           (Inr (), [''cg.fa'' \<mapsto> File ''>h\<newline>CG\<newline>'', ''cg.bin'' \<mapsto> File data])
       \<and> decompress_file stack_coder Little [''cg.fa'' \<mapsto> File ''>h\<newline>CG\<newline>'', ''cg.bin'' \<mapsto> File data]
           ''cg.bin'' ''cg.out'' =
           (Inr (), [''cg.fa'' \<mapsto> File ''>h\<newline>CG\<newline>'', ''cg.bin'' \<mapsto> File data,
                     ''cg.out'' \<mapsto> File ''>h\<newline>CG\<newline>''])"
    by (auto simp: s)
  with coder_ok_stack_coder events_cg u show ?thesis
    by (simp only: simp_thms)
qed

section \<open>Truncated containers\<close>

lemma misaligned_stream_ValueError:
  assumes "files input_path = Some (File content)"
    and "utf8_ok (c_header_bytes (read_container content))"
    and "length (c_rest (read_container content)) mod 4 \<noteq> 0"
  shows "decompress_file C bo files input_path output_path = (Inl ValueError, files)"
  using assms
  by (simp add: decompress_file_def open_read_def decode_utf8_def frombuffer_def Let_def)

lemma truncated_length:
  fixes k n :: nat
  assumes "k \<le> 4 * n" "k mod 4 \<noteq> 0"
  shows "(4 * n - k) mod 4 \<noteq> 0"
proof
  assume "(4 * n - k) mod 4 = 0"
  then have "4 dvd 4 * n - k"
    by (simp add: dvd_eq_mod_eq_0)
  moreover have "4 * n - (4 * n - k) = k"
    using assms(1) by simp
  moreover have "4 dvd 4 * n"
    by simp
  ultimately have "4 dvd k"
    by (metis dvd_diff_nat)
  then show False
    using assms(2) by (simp add: dvd_eq_mod_eq_0)
qed

lemma write_ac: "write_container Little (Suc (Suc 0)) ''>h'' [0, 1] = (Inr (), ac_container)"
  by (simp add: bytes_eval ac_container_def)

lemma events_ac: "collect [] [] (fasta_events ''>h\<newline>AC\<newline>'') = (''>h'', ''AC'')"
  by (simp add: reader_eval)

lemma pass1_ac:
  "pass1 (ContextModel_init CONTEXT_LENGTH (length DNA_ALPHABET)) initial_queue ''AC''
   = Inr ([(0, [1/4, 1/4, 1/4, 1/4]), (1, [1/4, 1/4, 1/4, 1/4])],
          \<lparr>context_length = 10, alphabet_size = 4,
            model = [''NNNNNNNNNN'' \<mapsto> [2, 1, 1, 1], ''NNNNNNNNNA'' \<mapsto> [1, 2, 1, 1]]\<rparr>, ''NNNNNNNNAC'')"
  by (simp add: model_eval BASE_TO_INDEX_eq)

lemma compress_ac:
  "compress_file stack_coder Little [''ac.fa'' \<mapsto> File ''>h\<newline>AC\<newline>''] ''ac.fa'' ''ac.bin'' =
     (Inr (), [''ac.fa'' \<mapsto> File ''>h\<newline>AC\<newline>'', ''ac.bin'' \<mapsto> File ac_container])"
  by (simp add: compress_file_nonempty [of _ _ "''>h\<newline>AC\<newline>''" "''>h''" "''AC''"] events_ac pass1_ac
      pass2_def stack_coder_simps open_write_def write_ac del: pass1.simps)

lemma read_ac_truncated:
  "read_container (take (length ac_container - 4) ac_container) =
     \<lparr>c_seq_len = 2, c_header_len = 2, c_header_bytes = ''>h'',
      c_rest = [CHR 0x00, CHR 0x00, CHR 0x00, CHR 0x00]\<rparr>"
  by (simp add: read_container_def ac_container_def from_bytes_big_def Let_def)

lemma loop_ac_truncated:
  "decode_loop stack_coder 2 (ContextModel_init CONTEXT_LENGTH (length DNA_ALPHABET)) initial_queue [0] []
   = Inr (\<lparr>context_length = 10, alphabet_size = 4,
            model = [''NNNNNNNNNN'' \<mapsto> [2, 1, 1, 1], ''NNNNNNNNNA'' \<mapsto> [2, 1, 1, 1]]\<rparr>, ''NNNNNNNNAA'', [], ''AA'')"
  by (simp add: decode_loop_numeral stack_coder_simps model_eval INDEX_TO_BASE_eq)

text \<open>
  Claim C5 as the spec states it: a valid compressed file whose code words are truncated
  by a few bytes makes \<^verbatim>\<open>decompress_file\<close> fail, never return a wrong sequence.
  \<^verbatim>\<open>decompress_file\<close> itself never compares the number of code words with the declared
  sequence length and catches nothing but \<^verbatim>\<open>FileNotFoundError\<close>; whether a stream that
  is too short is noticed is left to the coder, and the library documents that its
  decoder does not fail on an exhausted stack. With such a coder the container of
  \<^verbatim>\<open>AC\<close>, cut by its last 4 bytes, decompresses without an error to \<^verbatim>\<open>AA\<close>.
\<close>

theorem whole_word_truncation_undetected:
  "compress_file stack_coder Little [''ac.fa'' \<mapsto> File ''>h\<newline>AC\<newline>''] ''ac.fa'' ''ac.bin'' =
     (Inr (), [''ac.fa'' \<mapsto> File ''>h\<newline>AC\<newline>'', ''ac.bin'' \<mapsto> File ac_container])
   \<and> decompress_file stack_coder Little
       [''cut.bin'' \<mapsto> File (take (length ac_container - 4) ac_container)] ''cut.bin'' ''cut.fa'' =
     (Inr (), [''cut.bin'' \<mapsto> File (take (length ac_container - 4) ac_container),
               ''cut.fa'' \<mapsto> File ''>h\<newline>AA\<newline>''])"
proof -
  have "frombuffer Little [CHR 0x00, CHR 0x00, CHR 0x00, CHR 0x00] = Inr [0]"
    by (simp add: frombuffer_def words_of.simps bytes_word_def)
  moreover have "utf8_ok ''>h''"
    by (simp add: in_range_def)
  ultimately have "decompress_file stack_coder Little
       [''cut.bin'' \<mapsto> File (take (length ac_container - 4) ac_container)] ''cut.bin'' ''cut.fa'' =
     (Inr (), [''cut.bin'' \<mapsto> File (take (length ac_container - 4) ac_container),
               ''cut.fa'' \<mapsto> File ''>h\<newline>AA\<newline>''])"
    using decompress_file_nonempty [of "[''cut.bin'' \<mapsto> File (take (length ac_container - 4) ac_container)]"
        "''cut.bin''" _ _ _ _ _ stack_coder Little "''cut.fa''", OF _ read_ac_truncated]
    by (simp add: stack_coder_simps loop_ac_truncated open_write_def render_def slices70.simps
        del: decode_loop.simps)
  with compress_ac show ?thesis
    by (simp only: simp_thms)
qed

text \<open>
  Claim C5, amended: when the bytes after the header are not a whole multiple of 4,
  \<^verbatim>\<open>np.frombuffer\<close> raises \<^verbatim>\<open>ValueError\<close> and nothing is written
  (\<open>misaligned_stream_ValueError\<close>). In particular a container written by
  \<^verbatim>\<open>compress_file\<close> and cut inside its code words by a number of bytes that is not a
  multiple of 4 is rejected, for every coder and every host byte order.
\<close>

theorem truncation_off_word_boundary_rejected:
  assumes "write_container bo n header ws = (Inr (), data)"
    and "utf8_ok header"
    and "k \<le> 4 * length ws" and "k mod 4 \<noteq> 0"
    and "files input_path = Some (File (take (length data - k) data))"
  shows "decompress_file C bo files input_path output_path = (Inl ValueError, files)"
proof -
  from write_container_Inr [OF assms(1)] obtain b8 b2 where
    b: "to_bytes_big n 8 = Inr b8" "to_bytes_big (length header) 2 = Inr b2"
      "data = b8 @ b2 @ header @ tobytes bo ws"
    by blast
  let ?rest = "take (4 * length ws - k) (tobytes bo ws)"
  have "take (length data - k) data = b8 @ b2 @ header @ ?rest"
    using assms(3) by (simp add: b(3) length_tobytes)
  then have rc: "read_container (take (length data - k) data) =
      \<lparr>c_seq_len = n, c_header_len = length header, c_header_bytes = header, c_rest = ?rest\<rparr>"
    using read_container_written [OF b(1,2), of ?rest] by simp
  have h2: "length (c_rest (read_container (take (length data - k) data))) mod 4 \<noteq> 0"
    unfolding rc using truncated_length [OF assms(3,4)] assms(3) by (simp add: length_tobytes)
  have h1: "utf8_ok (c_header_bytes (read_container (take (length data - k) data)))"
    unfolding rc using assms(2) by simp
  show ?thesis
    by (rule misaligned_stream_ValueError [of files input_path, OF assms(5) h1 h2])
qed

theorem truncation_off_word_boundary_rejected_witness:
  "write_container Little (Suc (Suc 0)) ''>h'' [1, 2] = (Inr (), cg_container)
   \<and> utf8_ok ''>h''
   \<and> (1 :: nat) \<le> 4 * length [1 :: u32, 2] \<and> (1 :: nat) mod 4 \<noteq> 0
   \<and> decompress_file stack_coder Little
        [''cut.bin'' \<mapsto> File (take (length cg_container - 1) cg_container)] ''cut.bin'' ''cut.fa'' =
      (Inl ValueError, [''cut.bin'' \<mapsto> File (take (length cg_container - 1) cg_container)])"
proof -
  have u: "utf8_ok ''>h''"
    by (simp add: in_range_def)
  from truncation_off_word_boundary_rejected [OF write_cg u, of 1
      "[''cut.bin'' \<mapsto> File (take (length cg_container - 1) cg_container)]" "''cut.bin''"
      stack_coder "''cut.fa''"]
  have "decompress_file stack_coder Little
        [''cut.bin'' \<mapsto> File (take (length cg_container - 1) cg_container)] ''cut.bin'' ''cut.fa'' =
      (Inl ValueError, [''cut.bin'' \<mapsto> File (take (length cg_container - 1) cg_container)])"
    by simp
  with write_cg u show ?thesis
    by simp
qed

end
